theory Spec2Isabelle
  imports Main "HOL-Library.Word"
begin

section \<open>Data model\<close>

text \<open>
  The garbage collector of the storage engine (\<^verbatim>\<open>src/storage/garbage_collector.cpp\<close>)
  works on objects that it reaches through pointers: transaction contexts, undo records
  and data tables. Pointers are addresses (natural numbers) into explicit stores, and a
  pointer that may be \<^verbatim>\<open>nullptr\<close> is an \<open>option\<close>.
\<close>

type_synonym timestamp_t = "64 word"
type_synonym txn_ptr = nat
type_synonym undo_ptr = nat
type_synonym table_ptr = nat
type_synonym index_ptr = nat
type_synonym TupleSlot = nat
type_synonym col_id_t = nat
type_synonym varlen_ptr = nat
type_synonym action = nat

text \<open>
  Modelled from the spec: \<^verbatim>\<open>transaction_util.h\<close> is not among the sources. Bit 63 of
  a timestamp distinguishes running (1) from committed (0); \<open>NewerThan a b\<close> compares
  the values masked to 63 bits and treats the running bit separately, a committed
  timestamp being older than a running one.
\<close>

definition Committed :: "timestamp_t \<Rightarrow> bool" where
  "Committed t = (\<not> bit t 63)"

definition NewerThan :: "timestamp_t \<Rightarrow> timestamp_t \<Rightarrow> bool" where
  "NewerThan a b =
     (if Committed a = Committed b then take_bit 63 b < take_bit 63 a else Committed b)"

text \<open>
  Modelled from the spec: the kinds of an undo record are INSERT, UPDATE and DELETE
  (the enum \<^verbatim>\<open>DeltaRecordType\<close> is declared outside the sources). The \<^verbatim>\<open>default:\<close> branch
  of the switch in \<^verbatim>\<open>ReclaimBufferIfVarlen\<close> is taken by no value of the enum.
\<close>

datatype DeltaRecordType = UPDATE | INSERT | DELETE

record VarlenEntry =
  NeedReclaim :: bool
  Content :: varlen_ptr

text \<open>
  A projected row, as far as the collector reads it: the column ids in order, and for
  each position what \<^verbatim>\<open>AccessWithNullCheck(i)\<close> returns, read as a \<^verbatim>\<open>VarlenEntry\<close> the way
  the \<^verbatim>\<open>reinterpret_cast\<close> does (\<open>None\<close> is \<^verbatim>\<open>nullptr\<close>, a null attribute).
\<close>

type_synonym ProjectedRow = "(col_id_t \<times> VarlenEntry option) list"

definition NumColumns_row :: "ProjectedRow \<Rightarrow> nat" where
  "NumColumns_row row = length row"

definition ColumnIds :: "ProjectedRow \<Rightarrow> col_id_t list" where
  "ColumnIds row = map fst row"

definition AccessWithNullCheck_row :: "ProjectedRow \<Rightarrow> nat \<Rightarrow> VarlenEntry option" where
  "AccessWithNullCheck_row row i = snd (row ! i)"

record UndoRecord =
  Type :: DeltaRecordType
  Timestamp :: timestamp_t
  Table :: "table_ptr option"
  Slot :: TupleSlot
  Next :: "undo_ptr option"
  Delta :: ProjectedRow

record BlockLayout =
  NumColumns :: nat
  IsVarlen :: "col_id_t \<Rightarrow> bool"

text \<open>
  A data table with its accessor: the block layout, the version pointer of every slot,
  the attributes \<^verbatim>\<open>accessor_.AccessWithNullCheck(slot, col_id)\<close> returns, and the slots
  that are allocated (\<^verbatim>\<open>accessor_.Deallocate(slot)\<close> removes one).
\<close>

record DataTable =
  layout :: BlockLayout
  version_ptrs :: "TupleSlot \<Rightarrow> undo_ptr option"
  attrs :: "TupleSlot \<Rightarrow> col_id_t \<Rightarrow> VarlenEntry option"
  allocated :: "TupleSlot set"

record heap =
  tables :: "table_ptr \<Rightarrow> DataTable"
  undo_records :: "undo_ptr \<Rightarrow> UndoRecord"

record TransactionContext =
  TxnId :: timestamp_t
  undo_buffer :: "undo_ptr list"
  loose_ptrs :: "varlen_ptr list"
  aborted :: bool
  log_processed :: bool

text \<open>
  Modelled from the spec: the transaction manager is not among the sources. It holds the
  global timestamp counter, the begin timestamps of the running transactions, the queue
  of completed transactions and the deferred actions submitted since the last tick.
\<close>

record TransactionManager =
  time :: timestamp_t
  curr_running_txns :: "timestamp_t list"
  completed_txns :: "txn_ptr list"
  deferred_actions_tm :: "(timestamp_t \<times> action) list"

text \<open>Modelled from the spec: the current value of the timestamp counter.\<close>

definition GetTimestamp :: "TransactionManager \<Rightarrow> timestamp_t" where
  "GetTimestamp tm = time tm"

text \<open>
  Modelled from the spec: the minimum begin timestamp in the running table, or "now"
  if it is empty.
\<close>

definition OldestTransactionStartTime :: "TransactionManager \<Rightarrow> timestamp_t" where
  "OldestTransactionStartTime tm =
     (case curr_running_txns tm of [] \<Rightarrow> time tm | t # ts \<Rightarrow> fold min ts t)"

text \<open>
  Modelled from the spec: the completed queue is moved out; the manager retains no
  reference afterwards. The deferred actions are handed over the same way.
\<close>

definition CompletedTransactionsForGC :: "TransactionManager \<Rightarrow> txn_ptr list \<times> TransactionManager" where
  "CompletedTransactionsForGC tm = (completed_txns tm, tm\<lparr>completed_txns := []\<rparr>)"

definition DeferredActionsForGC :: "TransactionManager \<Rightarrow> (timestamp_t \<times> action) list \<times> TransactionManager" where
  "DeferredActionsForGC tm = (deferred_actions_tm tm, tm\<lparr>deferred_actions_tm := []\<rparr>)"

text \<open>
  What the collector does to the world outside its own fields is recorded in a trace, in
  order: a deferred action invoked, a transaction object deleted, a call of
  \<^verbatim>\<open>TruncateVersionChain\<close>, \<^verbatim>\<open>ReclaimSlotIfDeleted\<close> or \<^verbatim>\<open>ReclaimBufferIfVarlen\<close>, and the
  collection hook of an index.
\<close>

datatype gc_event =
    Invoked action
  | Deleted txn_ptr
  | Truncated table_ptr TupleSlot
  | ReclaimedSlot undo_ptr
  | ReclaimedBuffer txn_ptr undo_ptr
  | IndexCollected index_ptr

text \<open>
  The collector and the memory it works on. The two transaction queues are
  \<^verbatim>\<open>std::forward_list\<close>s (front of the list first); \<open>deferred_actions\<close> is read with
  \<^verbatim>\<open>front()\<close>, \<^verbatim>\<open>push()\<close> and \<^verbatim>\<open>pop()\<close>, a first-in first-out queue (front first).
  \<open>others\<close> holds the writes that other threads make to the heap while the collector
  truncates version chains: one entry for each attempt of \<^verbatim>\<open>TruncateVersionChain\<close>.
\<close>

record GarbageCollector =
  mem :: heap
  txns :: "txn_ptr \<Rightarrow> TransactionContext"
  txn_manager :: TransactionManager
  last_unlinked :: timestamp_t
  txns_to_deallocate :: "txn_ptr list"
  txns_to_unlink :: "txn_ptr list"
  deferred_actions :: "(timestamp_t \<times> action) list"
  indexes :: "index_ptr list"
  others :: "(heap \<Rightarrow> heap) list"
  trace :: "gc_event list"

section \<open>Deferred actions\<close>

text \<open>
  The loop of \<^verbatim>\<open>ProcessDeferredActions\<close>: while the queue is not empty and the timestamp
  of its front is at most \<open>oldest_txn\<close>, invoke the front and pop it.
\<close>

fun execute_deferred :: "timestamp_t \<Rightarrow> (timestamp_t \<times> action) list \<Rightarrow> gc_event list
    \<Rightarrow> (timestamp_t \<times> action) list \<times> gc_event list" where
  "execute_deferred oldest_txn [] tr = ([], tr)"
| "execute_deferred oldest_txn (a # q) tr =
     (if fst a \<le> oldest_txn then execute_deferred oldest_txn q (tr @ [Invoked (snd a)])
      else (a # q, tr))"

definition ProcessDeferredActions :: "GarbageCollector \<Rightarrow> GarbageCollector" where
  "ProcessDeferredActions st =
     (let (new_actions, tm) = DeferredActionsForGC (txn_manager st);
          queue = deferred_actions st @ new_actions;
          oldest_txn = OldestTransactionStartTime tm;
          (queue', tr) = execute_deferred oldest_txn queue (trace st)
      in st\<lparr>txn_manager := tm, deferred_actions := queue', trace := tr\<rparr>)"

section \<open>The deallocation queue\<close>

text \<open>
  The loop of \<^verbatim>\<open>ProcessDeallocateQueue\<close> over the popped transactions, with the local
  \<open>requeue\<close> list and the counter \<open>txns_processed\<close> (a \<^verbatim>\<open>uint32_t\<close>).
\<close>

fun deallocate_loop :: "txn_ptr list \<Rightarrow> GarbageCollector \<Rightarrow> txn_ptr list \<Rightarrow> 32 word
    \<Rightarrow> GarbageCollector \<times> txn_ptr list \<times> 32 word" where
  "deallocate_loop [] st requeue txns_processed = (st, requeue, txns_processed)"
| "deallocate_loop (txn # rest) st requeue txns_processed =
     (if log_processed (txns st txn)
      then deallocate_loop rest (st\<lparr>trace := trace st @ [Deleted txn]\<rparr>) requeue (txns_processed + 1)
      else deallocate_loop rest st (txn # requeue) txns_processed)"

definition ProcessDeallocateQueue :: "GarbageCollector \<Rightarrow> 32 word \<times> GarbageCollector" where
  "ProcessDeallocateQueue st =
     (let oldest_txn = OldestTransactionStartTime (txn_manager st) in
      if NewerThan oldest_txn (last_unlinked st)
      then (let (st', requeue, txns_processed) = deallocate_loop (txns_to_deallocate st) st [] 0
            in (txns_processed, st'\<lparr>txns_to_deallocate := requeue\<rparr>))
      else (0, st))"

section \<open>Reclaiming slots and variable-length buffers\<close>

text \<open>
  Dereferencing a null pointer is an error of the model: \<^verbatim>\<open>undo_record->Table()\<close> may
  be \<^verbatim>\<open>nullptr\<close>, and both reclaim functions go through it.
\<close>

datatype error = NullPointerDereference

text \<open>
  Modelled from the spec: \<^verbatim>\<open>deallocate(slot)\<close> of the accessor (the tuple access strategy
  is not among the sources) returns the slot to the free list of its block.
\<close>

definition Deallocate :: "TupleSlot \<Rightarrow> DataTable \<Rightarrow> DataTable" where
  "Deallocate slot t = t\<lparr>allocated := allocated t - {slot}\<rparr>"

definition ReclaimSlotIfDeleted :: "undo_ptr \<Rightarrow> GarbageCollector \<Rightarrow> error + GarbageCollector" where
  "ReclaimSlotIfDeleted undo_record st =
     (let r = undo_records (mem st) undo_record in
      if Type r = DELETE then
        (case Table r of
           None \<Rightarrow> Inl NullPointerDereference
         | Some table \<Rightarrow>
             Inr (st\<lparr>mem := (mem st)\<lparr>tables :=
                    (tables (mem st))(table := Deallocate (Slot r) (tables (mem st) table))\<rparr>\<rparr>))
      else Inr st)"

definition push_back_loose_ptr :: "txn_ptr \<Rightarrow> varlen_ptr \<Rightarrow> GarbageCollector \<Rightarrow> GarbageCollector" where
  "push_back_loose_ptr txn c st =
     st\<lparr>txns := (txns st)(txn := (txns st txn)\<lparr>loose_ptrs := loose_ptrs (txns st txn) @ [c]\<rparr>)\<rparr>"

text \<open>The two statements every scanned column ends with.\<close>

definition reclaim_varlen :: "txn_ptr \<Rightarrow> VarlenEntry option \<Rightarrow> GarbageCollector \<Rightarrow> GarbageCollector" where
  "reclaim_varlen txn varlen st =
     (case varlen of
        None \<Rightarrow> st
      | Some v \<Rightarrow> if NeedReclaim v then push_back_loose_ptr txn (Content v) st else st)"

text \<open>The bodies of the two \<^verbatim>\<open>for\<close> loops, at index \<open>i\<close>.\<close>

definition reclaim_delete_column :: "txn_ptr \<Rightarrow> DataTable \<Rightarrow> TupleSlot \<Rightarrow> nat
    \<Rightarrow> GarbageCollector \<Rightarrow> GarbageCollector" where
  "reclaim_delete_column txn table slot i st =
     (let col_id = i in
      if IsVarlen (layout table) col_id then reclaim_varlen txn (attrs table slot col_id) st
      else st)"

definition reclaim_update_column :: "txn_ptr \<Rightarrow> DataTable \<Rightarrow> ProjectedRow \<Rightarrow> nat
    \<Rightarrow> GarbageCollector \<Rightarrow> GarbageCollector" where
  "reclaim_update_column txn table delta i st =
     (let col_id = ColumnIds delta ! i in
      if IsVarlen (layout table) col_id then reclaim_varlen txn (AccessWithNullCheck_row delta i) st
      else st)"

definition ReclaimBufferIfVarlen :: "txn_ptr \<Rightarrow> undo_ptr \<Rightarrow> GarbageCollector \<Rightarrow> error + GarbageCollector" where
  "ReclaimBufferIfVarlen txn undo_record st =
     (let r = undo_records (mem st) undo_record in
      case Table r of
        None \<Rightarrow> Inl NullPointerDereference
      | Some t \<Rightarrow>
          (let table = tables (mem st) t in
           case Type r of
             INSERT \<Rightarrow> Inr st
           | DELETE \<Rightarrow>
               Inr (fold (reclaim_delete_column txn table (Slot r)) [0..<NumColumns (layout table)] st)
           | UPDATE \<Rightarrow>
               Inr (fold (reclaim_update_column txn table (Delta r)) [0..<NumColumns_row (Delta r)] st)))"

section \<open>Truncating a version chain\<close>

text \<open>
  Modelled from the spec: the primitives of the data table (\<^verbatim>\<open>data_table.h\<close> is not among
  the sources). \<^verbatim>\<open>atomic_read_version_ptr\<close> loads the version pointer of the slot;
  \<^verbatim>\<open>compare_and_swap_version_ptr\<close> installs the new pointer if the current one is the
  expected one, and tells whether it did.
\<close>

definition AtomicallyReadVersionPtr :: "heap \<Rightarrow> table_ptr \<Rightarrow> TupleSlot \<Rightarrow> undo_ptr option" where
  "AtomicallyReadVersionPtr h table slot = version_ptrs (tables h table) slot"

definition CompareAndSwapVersionPtr :: "heap \<Rightarrow> table_ptr \<Rightarrow> TupleSlot \<Rightarrow> undo_ptr option
    \<Rightarrow> undo_ptr option \<Rightarrow> bool \<times> heap" where
  "CompareAndSwapVersionPtr h table slot expected desired =
     (if version_ptrs (tables h table) slot = expected
      then (True, h\<lparr>tables := (tables h)(table :=
              (tables h table)\<lparr>version_ptrs := (version_ptrs (tables h table))(slot := desired)\<rparr>)\<rparr>)
      else (False, h))"

text \<open>The store \<^verbatim>\<open>curr->Next().store(v)\<close>.\<close>

definition store_Next :: "heap \<Rightarrow> undo_ptr \<Rightarrow> undo_ptr option \<Rightarrow> heap" where
  "store_Next h cur v = h\<lparr>undo_records := (undo_records h)(cur := (undo_records h cur)\<lparr>Next := v\<rparr>)\<rparr>"

text \<open>
  The \<^verbatim>\<open>while (true)\<close> loop of \<^verbatim>\<open>TruncateVersionChain\<close>. It leaves either through
  \<^verbatim>\<open>return\<close>, when the chain ends before a record older than \<open>oldest\<close> is found, or through
  \<^verbatim>\<open>break\<close>, with \<open>cur\<close> (the source's \<^verbatim>\<open>curr\<close>) the record whose successor can be
  unlinked. On a chain that runs into a cycle the loop does not end: the value is \<open>None\<close>.
\<close>

datatype traversal = ReachedEnd | CutAfter undo_ptr

partial_function (option) traverse_chain :: "heap \<Rightarrow> timestamp_t \<Rightarrow> undo_ptr \<Rightarrow> traversal option" where
  "traverse_chain h oldest cur =
     (case Next (undo_records h cur) of
        None \<Rightarrow> Some ReachedEnd
      | Some next \<Rightarrow>
          if NewerThan oldest (Timestamp (undo_records h next)) then Some (CutAfter cur)
          else traverse_chain h oldest next)"

declare traverse_chain.simps [code]

text \<open>
  One pass through the body of \<^verbatim>\<open>TruncateVersionChain\<close>. Where the source calls itself,
  the pass ends with \<open>Restart\<close>; where it returns, with \<open>Return\<close>. \<open>concurrent\<close> is what
  the other threads write to the heap during the pass: it lands after the first read of
  the version pointer (and after the traversal and the store into \<open>curr->Next()\<close>), before
  the compare-and-swap or the second read of the version pointer.
\<close>

datatype outcome = Return (heap_of: heap) | Restart (heap_of: heap)

definition TruncateVersionChain_pass :: "table_ptr \<Rightarrow> TupleSlot \<Rightarrow> timestamp_t \<Rightarrow> (heap \<Rightarrow> heap)
    \<Rightarrow> heap \<Rightarrow> outcome option" where
  "TruncateVersionChain_pass table slot oldest concurrent h =
     (case AtomicallyReadVersionPtr h table slot of
        None \<Rightarrow> Some (Return (concurrent h))
      | Some version_ptr \<Rightarrow>
          if NewerThan oldest (Timestamp (undo_records h version_ptr)) then
            (case CompareAndSwapVersionPtr (concurrent h) table slot (Some version_ptr) None of
               (True, h') \<Rightarrow> Some (Return h')
             | (False, h') \<Rightarrow> Some (Restart h'))
          else
            (case traverse_chain h oldest version_ptr of
               None \<Rightarrow> None
             | Some ReachedEnd \<Rightarrow> Some (Return (concurrent h))
             | Some (CutAfter cur) \<Rightarrow>
                 (let h' = concurrent (store_Next h cur None) in
                  if cur = version_ptr
                     \<and> \<not> Committed (Timestamp (undo_records h' version_ptr))
                     \<and> AtomicallyReadVersionPtr h' table slot \<noteq> Some version_ptr
                  then Some (Restart h')
                  else Some (Return h'))))"

text \<open>
  \<^verbatim>\<open>TruncateVersionChain\<close>: passes until one returns. Each pass takes the next entry of
  the concurrent writes; when they are used up, the other threads write nothing.
\<close>

definition next_writes :: "(heap \<Rightarrow> heap) list \<Rightarrow> heap \<Rightarrow> heap" where
  "next_writes ws = (case ws of [] \<Rightarrow> id | w # _ \<Rightarrow> w)"

partial_function (option) TruncateVersionChain :: "table_ptr \<Rightarrow> TupleSlot \<Rightarrow> timestamp_t
    \<Rightarrow> (heap \<Rightarrow> heap) list \<Rightarrow> heap \<Rightarrow> (heap \<times> (heap \<Rightarrow> heap) list) option" where
  "TruncateVersionChain table slot oldest ws h =
     (case TruncateVersionChain_pass table slot oldest (next_writes ws) h of
        None \<Rightarrow> None
      | Some (Return h') \<Rightarrow> Some (h', tl ws)
      | Some (Restart h') \<Rightarrow> TruncateVersionChain table slot oldest (tl ws) h')"

declare TruncateVersionChain.simps [code]

section \<open>The unlink queue\<close>

text \<open>Lines 89 to 93: truncate the version chain of the record's slot, once per tick.\<close>

definition truncate_unvisited :: "timestamp_t \<Rightarrow> undo_ptr \<Rightarrow> GarbageCollector \<times> TupleSlot set
    \<Rightarrow> (GarbageCollector \<times> TupleSlot set) option" where
  "truncate_unvisited oldest_txn undo_record sv =
     (let (st, visited_slots) = sv; r = undo_records (mem st) undo_record in
      case Table r of
        None \<Rightarrow> Some (st, visited_slots)
      | Some table \<Rightarrow>
          if Slot r \<notin> visited_slots then
            (case TruncateVersionChain table (Slot r) oldest_txn (others st) (mem st) of
               None \<Rightarrow> None
             | Some (h, ws) \<Rightarrow>
                 Some (st\<lparr>mem := h, others := ws, trace := trace st @ [Truncated table (Slot r)]\<rparr>,
                       insert (Slot r) visited_slots))
          else Some (st, visited_slots))"

text \<open>Lines 96 to 99: reclaim, unless the transaction is aborted.\<close>

definition reclaim_unless_aborted :: "txn_ptr \<Rightarrow> undo_ptr \<Rightarrow> GarbageCollector \<Rightarrow> error + GarbageCollector" where
  "reclaim_unless_aborted txn undo_record st =
     (if \<not> aborted (txns st txn) then
        (case ReclaimSlotIfDeleted undo_record (st\<lparr>trace := trace st @ [ReclaimedSlot undo_record]\<rparr>) of
           Inl e \<Rightarrow> Inl e
         | Inr st1 \<Rightarrow>
             ReclaimBufferIfVarlen txn undo_record
               (st1\<lparr>trace := trace st1 @ [ReclaimedBuffer txn undo_record]\<rparr>))
      else Inr st)"

text \<open>The loop over the undo buffer of one transaction.\<close>

fun unlink_records :: "timestamp_t \<Rightarrow> txn_ptr \<Rightarrow> undo_ptr list \<Rightarrow> GarbageCollector \<times> TupleSlot set
    \<Rightarrow> (error + GarbageCollector \<times> TupleSlot set) option" where
  "unlink_records oldest_txn txn [] sv = Some (Inr sv)"
| "unlink_records oldest_txn txn (undo_record # rest) sv =
     (case truncate_unvisited oldest_txn undo_record sv of
        None \<Rightarrow> None
      | Some (st1, visited_slots) \<Rightarrow>
          (case reclaim_unless_aborted txn undo_record st1 of
             Inl e \<Rightarrow> Some (Inl e)
           | Inr st2 \<Rightarrow> unlink_records oldest_txn txn rest (st2, visited_slots)))"

text \<open>
  The loop over the unlink queue: the transactions popped from \<^verbatim>\<open>txns_to_unlink_\<close>, the
  collector, the visited slots, the local \<open>requeue\<close> list and the counter.
\<close>

fun unlink_loop :: "timestamp_t \<Rightarrow> txn_ptr list
    \<Rightarrow> GarbageCollector \<times> TupleSlot set \<times> txn_ptr list \<times> 32 word
    \<Rightarrow> (error + GarbageCollector \<times> TupleSlot set \<times> txn_ptr list \<times> 32 word) option" where
  "unlink_loop oldest_txn [] acc = Some (Inr acc)"
| "unlink_loop oldest_txn (txn # rest) (st, visited_slots, requeue, txns_processed) =
     (if undo_buffer (txns st txn) = [] then
        unlink_loop oldest_txn rest
          (st\<lparr>trace := trace st @ [Deleted txn]\<rparr>, visited_slots, requeue, txns_processed + 1)
      else if NewerThan oldest_txn (TxnId (txns st txn)) then
        (case unlink_records oldest_txn txn (undo_buffer (txns st txn)) (st, visited_slots) of
           None \<Rightarrow> None
         | Some (Inl e) \<Rightarrow> Some (Inl e)
         | Some (Inr (st', visited_slots')) \<Rightarrow>
             unlink_loop oldest_txn rest
               (st'\<lparr>txns_to_deallocate := txn # txns_to_deallocate st'\<rparr>, visited_slots', requeue,
                txns_processed + 1))
      else unlink_loop oldest_txn rest (st, visited_slots, txn # requeue, txns_processed))"

definition ProcessUnlinkQueue :: "GarbageCollector \<Rightarrow> (error + 32 word \<times> GarbageCollector) option" where
  "ProcessUnlinkQueue st =
     (let oldest_txn = OldestTransactionStartTime (txn_manager st);
          (completed, tm) = CompletedTransactionsForGC (txn_manager st);
          queue = (if completed \<noteq> [] then completed @ txns_to_unlink st
                   else txns_to_unlink st)
      in case unlink_loop oldest_txn queue (st\<lparr>txn_manager := tm\<rparr>, {}, [], 0) of
           None \<Rightarrow> None
         | Some (Inl e) \<Rightarrow> Some (Inl e)
         | Some (Inr (st', visited_slots, requeue, txns_processed)) \<Rightarrow>
             Some (Inr (txns_processed, st'\<lparr>txns_to_unlink := requeue\<rparr>)))"

section \<open>A tick of the collector\<close>

text \<open>
  \<^verbatim>\<open>ProcessIndexes\<close> calls the collection hook of every registered index; the tick runs
  the four phases in order and sets \<^verbatim>\<open>last_unlinked_\<close> between the third and the fourth.
\<close>

definition ProcessIndexes :: "GarbageCollector \<Rightarrow> GarbageCollector" where
  "ProcessIndexes st = st\<lparr>trace := trace st @ map IndexCollected (indexes st)\<rparr>"

definition PerformGarbageCollection :: "GarbageCollector
    \<Rightarrow> (error + (32 word \<times> 32 word) \<times> GarbageCollector) option" where
  "PerformGarbageCollection st =
     (let st1 = ProcessDeferredActions st;
          (txns_deallocated, st2) = ProcessDeallocateQueue st1
      in case ProcessUnlinkQueue st2 of
           None \<Rightarrow> None
         | Some (Inl e) \<Rightarrow> Some (Inl e)
         | Some (Inr (txns_unlinked, st3)) \<Rightarrow>
             (let st4 = (if txns_unlinked > 0
                         then st3\<lparr>last_unlinked := GetTimestamp (txn_manager st3)\<rparr>
                         else st3)
              in Some (Inr ((txns_deallocated, txns_unlinked), ProcessIndexes st4))))"

section \<open>The write-ahead log\<close>

text \<open>
  Modelled from the spec: the log records and the log file (\<^verbatim>\<open>log_record.h\<close> and the disk
  writer are not among the sources). A record has a type, the begin timestamp of its
  transaction and, for a commit record, the commit timestamp; the log file is the
  sequence of the records made durable.
\<close>

datatype LogRecordType = REDO | DELETE_log | COMMIT

record LogRecord =
  RecordType :: LogRecordType
  TxnBegin :: timestamp_t
  CommitTime :: timestamp_t

text \<open>
  The log manager: the queue of redo buffers handed over by transactions
  (\<^verbatim>\<open>flush_queue_\<close> of \<^verbatim>\<open>LogSerializerTask\<close>) and the log file.
\<close>

record LogManager =
  flush_queue :: "LogRecord list list"
  log_file :: "LogRecord list"

definition Start :: LogManager where
  "Start = \<lparr>flush_queue = [], log_file = []\<rparr>"

text \<open>\<^verbatim>\<open>LogSerializerTask::AddBufferToFlushQueue\<close>: push the buffer onto the flush queue.\<close>

definition AddBufferToFlushQueue :: "LogRecord list \<Rightarrow> LogManager \<Rightarrow> LogManager" where
  "AddBufferToFlushQueue buffer_segment lm = lm\<lparr>flush_queue := flush_queue lm @ [buffer_segment]\<rparr>"

text \<open>
  Modelled from the spec: \<^verbatim>\<open>persist_and_stop\<close> (\<^verbatim>\<open>log_manager.cpp\<close> is not among the
  sources). The serializer drains its queue, every record of every buffer in order, and
  the disk writer persists them; it returns when all accepted records are durable.
\<close>

definition PersistAndStop :: "LogManager \<Rightarrow> LogManager" where
  "PersistAndStop lm = \<lparr>flush_queue = [], log_file = log_file lm @ concat (flush_queue lm)\<rparr>"

text \<open>
  A transaction of the random workload (\<^verbatim>\<open>RandomWorkloadTransaction\<close>): its start time,
  the redo records it has staged and its \<^verbatim>\<open>aborted_\<close> flag. \<^verbatim>\<open>RandomSelect\<close> stages nothing;
  \<^verbatim>\<open>RandomInsert\<close> and \<^verbatim>\<open>RandomUpdate\<close> stage a redo record unless the transaction is
  aborted already, and an update whose result is false aborts it.
\<close>

record RandomWorkloadTransaction =
  start_time :: timestamp_t
  redo_buffer :: "LogRecord list"
  txn_aborted :: bool

definition BeginTransaction :: "timestamp_t \<Rightarrow> RandomWorkloadTransaction" where
  "BeginTransaction t = \<lparr>start_time = t, redo_buffer = [], txn_aborted = False\<rparr>"

definition StageWrite :: "RandomWorkloadTransaction \<Rightarrow> RandomWorkloadTransaction" where
  "StageWrite txn = txn\<lparr>redo_buffer := redo_buffer txn
     @ [\<lparr>RecordType = REDO, TxnBegin = start_time txn, CommitTime = 0\<rparr>]\<rparr>"

datatype operation = RandomSelect | RandomInsert | RandomUpdate bool

fun apply_operation :: "operation \<Rightarrow> RandomWorkloadTransaction \<Rightarrow> RandomWorkloadTransaction" where
  "apply_operation RandomSelect txn = txn"
| "apply_operation RandomInsert txn = (if txn_aborted txn then txn else StageWrite txn)"
| "apply_operation (RandomUpdate result) txn =
     (if txn_aborted txn then txn else (StageWrite txn)\<lparr>txn_aborted := \<not> result\<rparr>)"

text \<open>
  Modelled from the spec: commit and abort of the transaction manager
  (\<^verbatim>\<open>transaction_manager.cpp\<close> is not among the sources), as far as the log sees them.
  A transaction without writes hands nothing to the log. Otherwise a commit record,
  tagged with the commit timestamp, is appended and the redo buffer is handed to the
  serializer. On abort the redo buffer is discarded and no commit record is emitted.
\<close>

definition Commit :: "RandomWorkloadTransaction \<Rightarrow> timestamp_t \<Rightarrow> LogManager \<Rightarrow> LogManager" where
  "Commit txn commit_ts lm =
     (if redo_buffer txn = [] then lm
      else AddBufferToFlushQueue
             (redo_buffer txn @ [\<lparr>RecordType = COMMIT, TxnBegin = start_time txn, CommitTime = commit_ts\<rparr>]) lm)"

definition Abort :: "RandomWorkloadTransaction \<Rightarrow> LogManager \<Rightarrow> LogManager" where
  "Abort txn lm = lm"

text \<open>\<^verbatim>\<open>RandomWorkloadTransaction::Finish\<close>, and the simulation of a list of transactions.\<close>

definition Finish :: "RandomWorkloadTransaction \<Rightarrow> timestamp_t \<Rightarrow> LogManager \<Rightarrow> LogManager" where
  "Finish txn commit_ts lm = (if txn_aborted txn then Abort txn lm else Commit txn commit_ts lm)"

record simulated =
  begin_ts :: timestamp_t
  operations :: "operation list"
  commit_ts :: timestamp_t

definition ran :: "simulated \<Rightarrow> RandomWorkloadTransaction" where
  "ran s = fold apply_operation (operations s) (BeginTransaction (begin_ts s))"

definition SimulateOneTransaction :: "simulated \<Rightarrow> LogManager \<Rightarrow> LogManager" where
  "SimulateOneTransaction s lm =
     Finish (fold apply_operation (operations s) (BeginTransaction (begin_ts s))) (commit_ts s) lm"

definition SimulateOltp :: "simulated list \<Rightarrow> LogManager \<Rightarrow> LogManager" where
  "SimulateOltp workload lm = fold SimulateOneTransaction workload lm"

text \<open>
  The count of \<^verbatim>\<open>ReadOnlyTransactionsGenerateNoLogTest\<close>: the records read back from the
  log file, skipping those of the initial transaction (begin timestamp 0).
\<close>

definition log_records_count :: "LogRecord list \<Rightarrow> nat" where
  "log_records_count records = length (filter (\<lambda>log_record. TxnBegin log_record \<noteq> 0) records)"

text \<open>
  A transaction of the workload is read-only when it only selects; it is a committed
  writer when it staged a record and did not abort.
\<close>

definition read_only_txn :: "simulated \<Rightarrow> bool" where
  "read_only_txn s = (\<forall>op \<in> set (operations s). op = RandomSelect)"

definition committed_writer :: "simulated \<Rightarrow> bool" where
  "committed_writer s = (\<not> txn_aborted (ran s) \<and> redo_buffer (ran s) \<noteq> [])"

section \<open>Notions the properties are stated with\<close>

text \<open>
  The payloads a scan moves, in the words of the spec: of the scanned columns, those
  that are variable-length, hold a non-null entry and need reclamation; and the move
  itself, onto the loose-pointer list of the owning transaction.
\<close>

definition payloads_to_reclaim :: "BlockLayout \<Rightarrow> (col_id_t \<times> VarlenEntry option) list
    \<Rightarrow> varlen_ptr list" where
  "payloads_to_reclaim l scanned =
     [Content v. (col_id, Some v) \<leftarrow> scanned, IsVarlen l col_id \<and> NeedReclaim v]"

definition move_to_loose_ptrs :: "txn_ptr \<Rightarrow> varlen_ptr list \<Rightarrow> GarbageCollector \<Rightarrow> GarbageCollector" where
  "move_to_loose_ptrs txn cs st =
     st\<lparr>txns := (txns st)(txn := (txns st txn)\<lparr>loose_ptrs := loose_ptrs (txns st txn) @ cs\<rparr>)\<rparr>"

text \<open>
  \<open>on_chain h v c\<close>: record \<open>c\<close> is reached from record \<open>v\<close> by following \<open>Next\<close>.
  \<open>ranked f h\<close>: \<open>f\<close> decreases along every \<open>Next\<close> pointer, so no chain of \<open>h\<close> runs
  into a cycle.
\<close>

inductive on_chain :: "heap \<Rightarrow> undo_ptr \<Rightarrow> undo_ptr \<Rightarrow> bool" for h v where
  head: "on_chain h v v"
| step: "on_chain h v c \<Longrightarrow> Next (undo_records h c) = Some n \<Longrightarrow> on_chain h v n"

definition ranked :: "(undo_ptr \<Rightarrow> nat) \<Rightarrow> heap \<Rightarrow> bool" where
  "ranked f h = (\<forall>p n. Next (undo_records h p) = Some n \<longrightarrow> f n < f p)"

text \<open>
  The parts of the trace: the transactions deleted, the slots whose chain was truncated,
  the records the two reclaim functions were called on; and the events a call added.
\<close>

definition deleted_txns :: "gc_event list \<Rightarrow> txn_ptr list" where
  "deleted_txns es = [txn. Deleted txn \<leftarrow> es]"

definition truncated_slots :: "gc_event list \<Rightarrow> TupleSlot list" where
  "truncated_slots es = [slot. Truncated table slot \<leftarrow> es]"

definition reclaimed_buffers :: "gc_event list \<Rightarrow> (txn_ptr \<times> undo_ptr) list" where
  "reclaimed_buffers es = [(txn, undo_record). ReclaimedBuffer txn undo_record \<leftarrow> es]"

definition reclaimed_slots :: "gc_event list \<Rightarrow> undo_ptr list" where
  "reclaimed_slots es = [undo_record. ReclaimedSlot undo_record \<leftarrow> es]"

definition new_events :: "GarbageCollector \<Rightarrow> GarbageCollector \<Rightarrow> gc_event list" where
  "new_events st st' = drop (length (trace st)) (trace st')"

text \<open>
  The calls of \<^verbatim>\<open>TruncateVersionChain\<close> in a trace, each with its table and its slot.
  \<open>chains_of h us\<close>: the chains that the undo records \<open>us\<close> belong to, in order; a record
  whose table pointer is null belongs to none. \<open>once_per_slot visited cs\<close>: the chains of
  \<open>cs\<close> whose slot is not in \<open>visited\<close>, every slot at its first occurrence only.
\<close>

definition truncations :: "gc_event list \<Rightarrow> (table_ptr \<times> TupleSlot) list" where
  "truncations es = [(table, slot). Truncated table slot \<leftarrow> es]"


definition chains_of :: "heap \<Rightarrow> undo_ptr list \<Rightarrow> (table_ptr \<times> TupleSlot) list" where
  "chains_of h us =
     concat (map (\<lambda>u. case Table (undo_records h u) of
                         None \<Rightarrow> []
                       | Some table \<Rightarrow> [(table, Slot (undo_records h u))]) us)"

text \<open>
  A write of another thread keeps the slots when it changes the table pointer and the
  slot of no undo record. \<open>same_slots h st\<close>: the undo records of the collector have the
  table pointers and the slots they have in \<open>h\<close>, and the writes to come keep them.
\<close>

definition keeps_slots :: "(heap \<Rightarrow> heap) \<Rightarrow> bool" where
  "keeps_slots w = (\<forall>h u. Table (undo_records (w h) u) = Table (undo_records h u)
                        \<and> Slot (undo_records (w h) u) = Slot (undo_records h u))"

definition same_slots :: "heap \<Rightarrow> GarbageCollector \<Rightarrow> bool" where
  "same_slots h st = ((\<forall>w \<in> set (others st). keeps_slots w)
     \<and> (\<forall>u. Table (undo_records (mem st) u) = Table (undo_records h u)
            \<and> Slot (undo_records (mem st) u) = Slot (undo_records h u)))"




text \<open>
  The three cases of the unlink loop, as the state decides them: the undo buffer is
  empty; it is not, and the oldest running transaction is newer than the transaction;
  it is not, and the transaction is still visible.
\<close>

definition read_only :: "GarbageCollector \<Rightarrow> txn_ptr \<Rightarrow> bool" where
  "read_only st txn = (undo_buffer (txns st txn) = [])"

definition unlinkable :: "timestamp_t \<Rightarrow> GarbageCollector \<Rightarrow> txn_ptr \<Rightarrow> bool" where
  "unlinkable oldest st txn =
     (undo_buffer (txns st txn) \<noteq> [] \<and> NewerThan oldest (TxnId (txns st txn)))"

definition still_visible :: "timestamp_t \<Rightarrow> GarbageCollector \<Rightarrow> txn_ptr \<Rightarrow> bool" where
  "still_visible oldest st txn =
     (undo_buffer (txns st txn) \<noteq> [] \<and> \<not> NewerThan oldest (TxnId (txns st txn)))"

text \<open>
  What the unlink loop never writes: of a transaction everything but its loose
  pointers, of the collector everything but the memory, the deallocation queue, the
  remaining concurrent writes and the trace.
\<close>

definition fixed_part :: "TransactionContext \<Rightarrow> timestamp_t \<times> undo_ptr list \<times> bool \<times> bool" where
  "fixed_part t = (TxnId t, undo_buffer t, aborted t, log_processed t)"

definition loop_frame :: "GarbageCollector \<Rightarrow> _" where
  "loop_frame st = (txn_manager st, last_unlinked st, txns_to_unlink st, deferred_actions st,
     indexes st, (\<lambda>txn. fixed_part (txns st txn)))"

definition unlink_frame :: "GarbageCollector \<Rightarrow> _" where
  "unlink_frame st = (loop_frame st, txns_to_deallocate st)"

text \<open>
  \<open>quiet f T st\<close>: no other thread writes during the tick, no chain runs into a cycle,
  and \<open>T\<close> gives the table pointer of every undo record.
\<close>

definition quiet :: "(undo_ptr \<Rightarrow> nat) \<Rightarrow> (undo_ptr \<Rightarrow> table_ptr option) \<Rightarrow> GarbageCollector \<Rightarrow> bool" where
  "quiet f T st = (others st = [] \<and> ranked f (mem st) \<and> (\<forall>u. Table (undo_records (mem st) u) = T u))"

text \<open>The collector a call leaves, when it returns.\<close>

definition collector_after :: "(error + 'a \<times> GarbageCollector) option \<Rightarrow> GarbageCollector option" where
  "collector_after r = (case r of Some (Inr (_, st)) \<Rightarrow> Some st | _ \<Rightarrow> None)"

section \<open>Example states\<close>

text \<open>The states the examples below start from: a collector with nothing to do.\<close>

definition no_txn :: TransactionContext where
  "no_txn = \<lparr>TxnId = 0, undo_buffer = [], loose_ptrs = [], aborted = False, log_processed = False\<rparr>"

definition no_record :: UndoRecord where
  "no_record = \<lparr>Type = INSERT, Timestamp = 0, Table = None, Slot = 0, Next = None, Delta = []\<rparr>"

definition empty_table :: DataTable where
  "empty_table = \<lparr>layout = \<lparr>NumColumns = 0, IsVarlen = (\<lambda>_. False)\<rparr>,
     version_ptrs = (\<lambda>_. None), attrs = (\<lambda>_ _. None), allocated = {}\<rparr>"

definition empty_heap :: heap where
  "empty_heap = \<lparr>tables = (\<lambda>_. empty_table), undo_records = (\<lambda>_. no_record)\<rparr>"

definition idle_manager :: TransactionManager where
  "idle_manager = \<lparr>time = 0, curr_running_txns = [], completed_txns = [], deferred_actions_tm = []\<rparr>"

definition idle_collector :: GarbageCollector where
  "idle_collector =
     \<lparr>mem = empty_heap, txns = (\<lambda>_. no_txn), txn_manager = idle_manager,
      last_unlinked = 0, txns_to_deallocate = [], txns_to_unlink = [], deferred_actions = [],
      indexes = [], others = [], trace = []\<rparr>"

text \<open>The trace a call leaves, when it returns.\<close>

definition events :: "(error + 'a \<times> GarbageCollector) option \<Rightarrow> gc_event list" where
  "events r = (case r of Some (Inr (_, st)) \<Rightarrow> trace st | _ \<Rightarrow> [])"

text \<open>
  A read-only transaction (number 1, empty undo buffer) has completed at 15; the log
  manager has not processed it, and the oldest running transaction (begin 5) is older
  than \<open>last_unlinked\<close> (10).
\<close>

definition readonly_unprocessed :: GarbageCollector where
  "readonly_unprocessed =
     idle_collector\<lparr>txns := (\<lambda>_. no_txn)(1 := no_txn\<lparr>TxnId := 15\<rparr>),
       txn_manager := idle_manager\<lparr>time := 20, curr_running_txns := [5], completed_txns := [1]\<rparr>,
       last_unlinked := 10\<rparr>"

text \<open>
  The deallocation queue holds transaction 1 (processed by the log manager) and
  transaction 2 (not yet); the oldest running transaction (begin 12) is newer than
  \<open>last_unlinked\<close> (10).
\<close>

definition two_to_deallocate :: GarbageCollector where
  "two_to_deallocate =
     idle_collector\<lparr>txns := (\<lambda>_. no_txn)(1 := no_txn\<lparr>log_processed := True\<rparr>),
       txn_manager := idle_manager\<lparr>time := 20, curr_running_txns := [12]\<rparr>,
       last_unlinked := 10, txns_to_deallocate := [1, 2]\<rparr>"

text \<open>
  Deferred actions out of timestamp order: action 0 with timestamp 5 was queued before
  action 1 with timestamp 1; the oldest running transaction began at 3.
\<close>

definition unordered_actions :: GarbageCollector where
  "unordered_actions =
     idle_collector\<lparr>txn_manager := idle_manager\<lparr>time := 20, curr_running_txns := [3]\<rparr>,
       deferred_actions := [(5, 0), (1, 1)]\<rparr>"

text \<open>Deferred actions in timestamp order, one of them handed over in this tick.\<close>

definition ordered_actions :: GarbageCollector where
  "ordered_actions =
     idle_collector\<lparr>txn_manager := idle_manager\<lparr>time := 20, curr_running_txns := [3],
         deferred_actions_tm := [(2, 1), (5, 2)]\<rparr>,
       deferred_actions := [(1, 0)]\<rparr>"

text \<open>
  An UPDATE record of transaction 1 on slot 0 of table 0. Columns 0, 1, 2 and 4 of the
  table are variable-length, column 3 is not. The delta holds a payload to reclaim in
  columns 0 and 4, an inlined entry in column 1, a null in column 2 and a fixed-size
  value in column 3.
\<close>

definition varlen_update :: GarbageCollector where
  "varlen_update =
     idle_collector\<lparr>mem := \<lparr>tables = (\<lambda>_. empty_table\<lparr>layout :=
           \<lparr>NumColumns = 5, IsVarlen = (\<lambda>col_id. col_id \<noteq> 3)\<rparr>\<rparr>),
         undo_records = (\<lambda>_. no_record)(1 := \<lparr>Type = UPDATE, Timestamp = 4, Table = Some 0,
           Slot = 0, Next = None,
           Delta = [(0, Some \<lparr>NeedReclaim = True, Content = 100\<rparr>),
                    (1, Some \<lparr>NeedReclaim = False, Content = 101\<rparr>),
                    (2, None),
                    (3, Some \<lparr>NeedReclaim = True, Content = 103\<rparr>),
                    (4, Some \<lparr>NeedReclaim = True, Content = 104\<rparr>)]\<rparr>)\<rparr>\<rparr>"

text \<open>
  What the abort of the transaction at the head of a chain, or a new writer, does to the
  slot: it replaces the version pointer.
\<close>

definition set_version_ptr :: "table_ptr \<Rightarrow> TupleSlot \<Rightarrow> undo_ptr option \<Rightarrow> heap \<Rightarrow> heap" where
  "set_version_ptr table slot v h =
     h\<lparr>tables := (tables h)(table :=
         (tables h table)\<lparr>version_ptrs := (version_ptrs (tables h table))(slot := v)\<rparr>)\<rparr>"

text \<open>
  Slot 0 of table 0 with the chain 3, 2, 1: record 3 is uncommitted (running bit set,
  begun at 12), record 2 committed at 10, record 1 committed at 3. With the oldest running
  transaction at 5, record 1 can be unlinked: the chain is cut after record 2.
\<close>

definition chain3 :: heap where
  "chain3 =
     \<lparr>tables = (\<lambda>_. empty_table)(0 := empty_table\<lparr>version_ptrs := (\<lambda>_. None)(0 := Some 3)\<rparr>),
      undo_records = (\<lambda>_. no_record)
        (3 := \<lparr>Type = UPDATE, Timestamp = 9223372036854775820, Table = Some 0, Slot = 0,
               Next = Some 2, Delta = []\<rparr>,
         2 := \<lparr>Type = UPDATE, Timestamp = 10, Table = Some 0, Slot = 0, Next = Some 1, Delta = []\<rparr>,
         1 := \<lparr>Type = UPDATE, Timestamp = 3, Table = Some 0, Slot = 0, Next = None, Delta = []\<rparr>)\<rparr>"

text \<open>
  The chain 2, 1: record 2 is uncommitted, record 1 committed at 3. With the oldest
  running transaction at 5 the chain is cut after its head.
\<close>

definition chain2 :: heap where
  "chain2 =
     \<lparr>tables = (\<lambda>_. empty_table)(0 := empty_table\<lparr>version_ptrs := (\<lambda>_. None)(0 := Some 2)\<rparr>),
      undo_records = (\<lambda>_. no_record)
        (2 := \<lparr>Type = UPDATE, Timestamp = 9223372036854775815, Table = Some 0, Slot = 0,
               Next = Some 1, Delta = []\<rparr>,
         1 := \<lparr>Type = UPDATE, Timestamp = 3, Table = Some 0, Slot = 0, Next = None, Delta = []\<rparr>)\<rparr>"

text \<open>
  Four completed transactions are handed over while the oldest running transaction began
  at 5. Transaction 1 is read-only. Transaction 2 committed at 4 and wrote slot 0 of
  table 0 twice (records 1 and 2, the chain of the slot). Transaction 3 aborted; its one
  record has no table. Transaction 4 committed at 8 and is still visible.
\<close>

definition four_completed :: GarbageCollector where
  "four_completed =
     idle_collector\<lparr>
       mem := \<lparr>tables = (\<lambda>_. empty_table)(0 := empty_table\<lparr>version_ptrs := (\<lambda>_. None)(0 := Some 2)\<rparr>),
         undo_records = (\<lambda>_. no_record)
           (1 := \<lparr>Type = UPDATE, Timestamp = 4, Table = Some 0, Slot = 0, Next = None, Delta = []\<rparr>,
            2 := \<lparr>Type = UPDATE, Timestamp = 4, Table = Some 0, Slot = 0, Next = Some 1, Delta = []\<rparr>,
            3 := \<lparr>Type = UPDATE, Timestamp = 4, Table = None, Slot = 1, Next = None, Delta = []\<rparr>,
            4 := \<lparr>Type = UPDATE, Timestamp = 8, Table = Some 0, Slot = 2, Next = None, Delta = []\<rparr>)\<rparr>,
       txns := (\<lambda>_. no_txn)
         (1 := no_txn\<lparr>TxnId := 4\<rparr>,
          2 := no_txn\<lparr>TxnId := 4, undo_buffer := [1, 2]\<rparr>,
          3 := no_txn\<lparr>TxnId := 4, undo_buffer := [3], aborted := True\<rparr>,
          4 := no_txn\<lparr>TxnId := 8, undo_buffer := [4]\<rparr>),
       txn_manager := idle_manager\<lparr>time := 20, curr_running_txns := [5], completed_txns := [1, 2, 3, 4]\<rparr>\<rparr>"

text \<open>
  Between two ticks: the log manager has processed every transaction, the transactions
  that were running have finished, and the only running transaction began at 25.
\<close>

definition after_log_flush :: "GarbageCollector \<Rightarrow> GarbageCollector" where
  "after_log_flush st =
     st\<lparr>txns := (\<lambda>txn. (txns st txn)\<lparr>log_processed := True\<rparr>),
        txn_manager := idle_manager\<lparr>time := 30, curr_running_txns := [25]\<rparr>\<rparr>"

text \<open>
  Two workloads: three transactions of five selects each; and a writer that commits, a
  reader, and a transaction whose update fails.
\<close>

definition selects_only :: "simulated list" where
  "selects_only =
     [\<lparr>begin_ts = 1, operations = replicate 5 RandomSelect, commit_ts = 2\<rparr>,
      \<lparr>begin_ts = 3, operations = replicate 5 RandomSelect, commit_ts = 5\<rparr>,
      \<lparr>begin_ts = 4, operations = replicate 5 RandomSelect, commit_ts = 6\<rparr>]"

definition mixed_workload :: "simulated list" where
  "mixed_workload =
     [\<lparr>begin_ts = 1, operations = [RandomUpdate True, RandomSelect], commit_ts = 2\<rparr>,
      \<lparr>begin_ts = 3, operations = [RandomSelect, RandomSelect], commit_ts = 5\<rparr>,
      \<lparr>begin_ts = 4, operations = [RandomInsert, RandomUpdate False], commit_ts = 6\<rparr>]"

section \<open>Properties of the deferred actions\<close>

lemma execute_deferred_eq:
  "execute_deferred oldest q tr =
     (dropWhile (\<lambda>a. fst a \<le> oldest) q, tr @ map (\<lambda>a. Invoked (snd a)) (takeWhile (\<lambda>a. fst a \<le> oldest) q))"
  by (induction q arbitrary: tr) auto

lemma takeWhile_due_sorted:
  fixes q :: "(timestamp_t \<times> action) list"
  assumes "sorted (map fst q)"
  shows "takeWhile (\<lambda>a. fst a \<le> t) q = filter (\<lambda>a. fst a \<le> t) q"
  using assms
proof (induction q)
  case Nil
  then show ?case by simp
next
  case (Cons x xs)
  show ?case
  proof (cases "fst x \<le> t")
    case True
    with Cons show ?thesis by simp
  next
    case False
    with Cons.prems have "\<forall>a \<in> set xs. \<not> fst a \<le> t" by fastforce
    then have "filter (\<lambda>a. fst a \<le> t) xs = []" by (simp add: filter_empty_conv)
    with False show ?thesis by simp
  qed
qed

lemma dropWhile_due_sorted:
  fixes q :: "(timestamp_t \<times> action) list"
  assumes "sorted (map fst q)"
  shows "dropWhile (\<lambda>a. fst a \<le> t) q = filter (\<lambda>a. \<not> fst a \<le> t) q"
  using assms
proof (induction q)
  case Nil
  then show ?case by simp
next
  case (Cons x xs)
  show ?case
  proof (cases "fst x \<le> t")
    case True
    with Cons show ?thesis by simp
  next
    case False
    with Cons.prems have "\<forall>a \<in> set xs. \<not> fst a \<le> t" by fastforce
    then have "filter (\<lambda>a. \<not> fst a \<le> t) xs = xs" by (simp add: filter_id_conv)
    with False show ?thesis by simp
  qed
qed

text \<open>
  C6, as the claim states it, fails: the pending actions are a first-in first-out queue,
  not a priority queue. With action 0 (timestamp 5) queued before action 1 (timestamp 1)
  and the oldest running transaction at 3, action 1 is pending with a timestamp at most
  the oldest running begin timestamp, and the tick invokes nothing.
\<close>

theorem ProcessDeferredActions_skips_due_action:
  "(1, 1) \<in> set (deferred_actions unordered_actions)
   \<and> (1 :: timestamp_t) \<le> OldestTransactionStartTime (txn_manager unordered_actions)
   \<and> trace (ProcessDeferredActions unordered_actions) = []
   \<and> deferred_actions (ProcessDeferredActions unordered_actions) = [(5, 0), (1, 1)]"
  by (simp add: unordered_actions_def idle_collector_def idle_manager_def
      ProcessDeferredActions_def DeferredActionsForGC_def OldestTransactionStartTime_def)

text \<open>
  C6, amended: the deferred-actions phase appends the actions handed over by the
  transaction manager to its first-in first-out queue and then invokes, in queue order,
  the leading actions whose timestamp is at most the oldest running begin timestamp; it
  stops at the first action with a larger timestamp, so no action with a larger
  timestamp is invoked. When the queue is in nondecreasing timestamp order, the invoked
  actions are all the pending actions with a timestamp at most the oldest running begin
  timestamp, and the actions left in the queue are all the others.
\<close>

theorem ProcessDeferredActions_fifo:
  "let pending = deferred_actions st @ deferred_actions_tm (txn_manager st);
       due = (\<lambda>a. fst a \<le> OldestTransactionStartTime (txn_manager st));
       st' = ProcessDeferredActions st
   in trace st' = trace st @ map (\<lambda>a. Invoked (snd a)) (takeWhile due pending)
      \<and> deferred_actions st' = dropWhile due pending
      \<and> (sorted (map fst pending) \<longrightarrow>
           takeWhile due pending = filter due pending
           \<and> dropWhile due pending = filter (\<lambda>a. \<not> due a) pending)"
  by (simp add: ProcessDeferredActions_def Let_def execute_deferred_eq DeferredActionsForGC_def
      OldestTransactionStartTime_def takeWhile_due_sorted dropWhile_due_sorted
      split: prod.splits list.splits)

theorem ProcessDeferredActions_fifo_witness:
  "sorted (map fst (deferred_actions ordered_actions
                     @ deferred_actions_tm (txn_manager ordered_actions)))
   \<and> trace (ProcessDeferredActions ordered_actions) = [Invoked 0, Invoked 1]
   \<and> deferred_actions (ProcessDeferredActions ordered_actions) = [(5, 2)]"
  using ProcessDeferredActions_fifo [of ordered_actions]
  by (simp add: ordered_actions_def idle_collector_def idle_manager_def
      OldestTransactionStartTime_def Let_def)

section \<open>Properties of the deallocation queue\<close>

lemma deallocate_loop_eq:
  "deallocate_loop q st requeue n =
     (st\<lparr>trace := trace st @ map Deleted (filter (\<lambda>p. log_processed (txns st p)) q)\<rparr>,
      rev (filter (\<lambda>p. \<not> log_processed (txns st p)) q) @ requeue,
      n + of_nat (length (filter (\<lambda>p. log_processed (txns st p)) q)))"
  by (induction q arbitrary: st requeue n) auto

lemma ProcessDeallocateQueue_closed:
  "ProcessDeallocateQueue st =
     (let safe = NewerThan (OldestTransactionStartTime (txn_manager st)) (last_unlinked st);
          queue = txns_to_deallocate st;
          gone = filter (\<lambda>txn. log_processed (txns st txn) \<and> safe) queue
      in (of_nat (length gone),
          st\<lparr>trace := trace st @ map Deleted gone,
             txns_to_deallocate :=
               (if safe then rev (filter (\<lambda>txn. \<not> log_processed (txns st txn)) queue)
                else queue)\<rparr>))"
  by (simp add: ProcessDeallocateQueue_def deallocate_loop_eq Let_def)

text \<open>
  C1, as the claim states it, fails: a transaction with an empty undo buffer is deleted
  by the unlink phase as soon as it is handed to the collector. Here transaction 1 has
  not been processed by the log manager, the oldest running begin timestamp (5) is not
  newer than \<open>last_unlinked\<close> (10), and the tick deletes it.
\<close>

theorem PerformGarbageCollection_deletes_readonly_unprocessed:
  "\<not> log_processed (txns readonly_unprocessed 1)
   \<and> \<not> NewerThan (OldestTransactionStartTime (txn_manager readonly_unprocessed))
          (last_unlinked readonly_unprocessed)
   \<and> events (PerformGarbageCollection readonly_unprocessed) = [Deleted 1]"
  by (simp add: readonly_unprocessed_def idle_collector_def idle_manager_def no_txn_def events_def
      PerformGarbageCollection_def ProcessDeferredActions_def ProcessDeallocateQueue_def
      ProcessUnlinkQueue_def ProcessIndexes_def DeferredActionsForGC_def
      CompletedTransactionsForGC_def OldestTransactionStartTime_def NewerThan_def Committed_def
      GetTimestamp_def)

text \<open>
  C1, amended: the deallocation phase deletes a transaction of the deallocation queue
  only when (a) its \<open>log_processed\<close> flag is true and (b) the oldest running begin
  timestamp is newer than \<open>last_unlinked\<close>. It deletes exactly the queued transactions
  that meet both, in queue order, and counts them; the queued transactions failing
  either condition stay in the queue and are not deleted by the phase. (Transactions
  with an empty undo buffer never enter this queue: the unlink phase deletes them.)
\<close>

theorem ProcessDeallocateQueue_deletes_only_processed_when_safe:
  assumes "ProcessDeallocateQueue st = (txns_processed, st')"
  shows "let safe = NewerThan (OldestTransactionStartTime (txn_manager st)) (last_unlinked st);
             queue = txns_to_deallocate st;
             gone = filter (\<lambda>txn. log_processed (txns st txn) \<and> safe) queue
         in new_events st st' = map Deleted gone
            \<and> (\<forall>txn. Deleted txn \<in> set (new_events st st') \<longrightarrow>
                  txn \<in> set queue \<and> log_processed (txns st txn) \<and> safe)
            \<and> (\<forall>txn \<in> set queue. \<not> (log_processed (txns st txn) \<and> safe) \<longrightarrow>
                  txn \<in> set (txns_to_deallocate st') \<and> Deleted txn \<notin> set (new_events st st'))
            \<and> txns_to_deallocate st' =
                 (if safe then rev (filter (\<lambda>txn. \<not> log_processed (txns st txn)) queue) else queue)
            \<and> txns_processed = of_nat (length gone)"
proof -
  define safe where "safe = NewerThan (OldestTransactionStartTime (txn_manager st)) (last_unlinked st)"
  define gone where "gone = filter (\<lambda>txn. log_processed (txns st txn) \<and> safe) (txns_to_deallocate st)"
  from assms have n: "txns_processed = of_nat (length gone)"
    and st': "st' = st\<lparr>trace := trace st @ map Deleted gone,
             txns_to_deallocate :=
               (if safe then rev (filter (\<lambda>txn. \<not> log_processed (txns st txn)) (txns_to_deallocate st))
                else txns_to_deallocate st)\<rparr>"
    by (simp_all add: ProcessDeallocateQueue_closed Let_def safe_def gone_def)
  have ne: "new_events st st' = map Deleted gone"
    by (simp add: st' new_events_def)
  show ?thesis
    unfolding Let_def ne safe_def [symmetric] gone_def [symmetric]
    using n by (auto simp: st' gone_def)
qed

theorem ProcessDeallocateQueue_deletes_only_processed_when_safe_witness:
  "\<exists>n st'. ProcessDeallocateQueue two_to_deallocate = (n, st')
     \<and> n = 1 \<and> new_events two_to_deallocate st' = [Deleted 1] \<and> txns_to_deallocate st' = [2]"
proof -
  obtain n st' where run: "ProcessDeallocateQueue two_to_deallocate = (n, st')"
    by (cases "ProcessDeallocateQueue two_to_deallocate")
  from ProcessDeallocateQueue_deletes_only_processed_when_safe [OF run]
  have "n = 1 \<and> new_events two_to_deallocate st' = [Deleted 1] \<and> txns_to_deallocate st' = [2]"
    by (simp add: Let_def two_to_deallocate_def idle_collector_def idle_manager_def no_txn_def
        OldestTransactionStartTime_def NewerThan_def Committed_def)
  with run show ?thesis by blast
qed

section \<open>Properties of the reclamation of variable-length buffers\<close>

lemma move_nothing [simp]: "move_to_loose_ptrs txn [] st = st"
  by (simp add: move_to_loose_ptrs_def)

lemma move_move [simp]:
  "move_to_loose_ptrs txn cs' (move_to_loose_ptrs txn cs st) = move_to_loose_ptrs txn (cs @ cs') st"
  by (simp add: move_to_loose_ptrs_def)

lemma payloads_nil [simp]: "payloads_to_reclaim l [] = []"
  by (simp add: payloads_to_reclaim_def)

lemma payloads_append [simp]:
  "payloads_to_reclaim l (xs @ ys) = payloads_to_reclaim l xs @ payloads_to_reclaim l ys"
  by (simp add: payloads_to_reclaim_def)

lemma reclaim_column_eq:
  "(if IsVarlen l c then reclaim_varlen txn e st else st) =
     move_to_loose_ptrs txn (payloads_to_reclaim l [(c, e)]) st"
  by (simp add: reclaim_varlen_def payloads_to_reclaim_def push_back_loose_ptr_def
      move_to_loose_ptrs_def split: option.splits)

lemma fold_delete_columns:
  "fold (reclaim_delete_column txn table slot) [0..<n] st =
     move_to_loose_ptrs txn
       (payloads_to_reclaim (layout table) (map (\<lambda>c. (c, attrs table slot c)) [0..<n])) st"
proof (induction n)
  case 0
  show ?case by simp
next
  case (Suc n)
  have "reclaim_delete_column txn table slot n s =
      move_to_loose_ptrs txn (payloads_to_reclaim (layout table) [(n, attrs table slot n)]) s" for s
    unfolding reclaim_delete_column_def Let_def by (rule reclaim_column_eq)
  with Suc show ?case by simp
qed

lemma fold_update_columns:
  "n \<le> length delta \<Longrightarrow> fold (reclaim_update_column txn table delta) [0..<n] st =
     move_to_loose_ptrs txn (payloads_to_reclaim (layout table) (take n delta)) st"
proof (induction n)
  case 0
  show ?case by simp
next
  case (Suc n)
  then have n: "n < length delta" by simp
  have "reclaim_update_column txn table delta n s =
      move_to_loose_ptrs txn (payloads_to_reclaim (layout table) [(fst (delta ! n), snd (delta ! n))]) s"
    for s
    unfolding reclaim_update_column_def Let_def ColumnIds_def AccessWithNullCheck_row_def
    using n by (simp add: reclaim_column_eq)
  with Suc n show ?case by (simp add: take_Suc_conv_app_nth)
qed

text \<open>
  C8: \<^verbatim>\<open>ReclaimBufferIfVarlen\<close>, called on an undo record with a table, moves onto the
  loose-pointer list of the owning transaction exactly the payloads to reclaim among
  the columns it scans, in scan order, and changes nothing else. The scanned columns
  are none for an INSERT record, every column of the base tuple for a DELETE record
  and the columns of the delta for an UPDATE record; in each, a payload is moved iff
  the column is variable-length, the entry is not null and it needs reclamation.
\<close>

theorem ReclaimBufferIfVarlen_moves:
  assumes "Table (undo_records (mem st) undo_record) = Some t"
  shows "ReclaimBufferIfVarlen txn undo_record st =
     (let r = undo_records (mem st) undo_record; table = tables (mem st) t;
          scanned = (case Type r of
                       INSERT \<Rightarrow> []
                     | DELETE \<Rightarrow> map (\<lambda>col_id. (col_id, attrs table (Slot r) col_id))
                                   [0..<NumColumns (layout table)]
                     | UPDATE \<Rightarrow> Delta r)
      in Inr (move_to_loose_ptrs txn (payloads_to_reclaim (layout table) scanned) st))"
  using assms
  by (simp add: ReclaimBufferIfVarlen_def Let_def fold_delete_columns fold_update_columns
      NumColumns_row_def split: DeltaRecordType.splits)

theorem ReclaimBufferIfVarlen_moves_witness:
  "ReclaimBufferIfVarlen 1 1 varlen_update = Inr (move_to_loose_ptrs 1 [100, 104] varlen_update)"
  using ReclaimBufferIfVarlen_moves [of varlen_update 1 0 1]
  by (simp add: varlen_update_def idle_collector_def empty_table_def Let_def payloads_to_reclaim_def)

section \<open>Properties of the truncation of a version chain\<close>

lemmas traverse_chain_induct = traverse_chain.raw_induct [rotated 1, consumes 1]

lemma traverse_chain_returns:
  assumes "ranked f h"
  shows "\<exists>r. traverse_chain h oldest cur = Some r"
proof (induction "f cur" arbitrary: cur rule: less_induct)
  case less
  show ?case
  proof (cases "Next (undo_records h cur)")
    case None
    then show ?thesis by (subst traverse_chain.simps) simp
  next
    case (Some n)
    with assms have "f n < f cur" by (simp add: ranked_def)
    then obtain r where "traverse_chain h oldest n = Some r" using less by blast
    with Some show ?thesis by (subst traverse_chain.simps) simp
  qed
qed

lemma traverse_chain_cut:
  assumes "traverse_chain h oldest cur = Some (CutAfter c)" and "on_chain h v cur"
  shows "on_chain h v c \<and>
          (\<exists>n. Next (undo_records h c) = Some n \<and> NewerThan oldest (Timestamp (undo_records h n)))"
  using assms
proof (induction h oldest cur "CutAfter c" rule: traverse_chain_induct)
  case (1 tc h oldest cur)
  show ?case
  proof (cases "Next (undo_records h cur)")
    case None
    with 1(2) show ?thesis by simp
  next
    case (Some n)
    show ?thesis
    proof (cases "NewerThan oldest (Timestamp (undo_records h n))")
      case True
      with Some 1(2,3) show ?thesis by auto
    next
      case False
      with Some 1(2) have "tc h oldest n = Some (CutAfter c)" by simp
      moreover from Some 1(3) have "on_chain h v n" by (rule on_chain.step [rotated])
      ultimately show ?thesis by (rule 1(1))
    qed
  qed
qed

lemma ranked_store_Next: "ranked f h \<Longrightarrow> ranked f (store_Next h cur None)"
  by (simp add: ranked_def store_Next_def)

lemma tables_store_Next [simp]: "tables (store_Next h cur v) = tables h"
  by (simp add: store_Next_def)

lemma read_store_Next [simp]:
  "AtomicallyReadVersionPtr (store_Next h cur v) table slot = AtomicallyReadVersionPtr h table slot"
  by (simp add: AtomicallyReadVersionPtr_def)

lemma undo_records_CAS:
  "undo_records (snd (CompareAndSwapVersionPtr h table slot e d)) = undo_records h"
  by (simp add: CompareAndSwapVersionPtr_def)

lemma pass_restarts_iff:
  "TruncateVersionChain_pass table slot oldest concurrent h = Some (Restart h') \<longleftrightarrow>
     (\<exists>version_ptr. AtomicallyReadVersionPtr h table slot = Some version_ptr \<and>
        (if NewerThan oldest (Timestamp (undo_records h version_ptr))
         then h' = concurrent h \<and> AtomicallyReadVersionPtr h' table slot \<noteq> Some version_ptr
         else traverse_chain h oldest version_ptr = Some (CutAfter version_ptr)
              \<and> h' = concurrent (store_Next h version_ptr None)
              \<and> \<not> Committed (Timestamp (undo_records h' version_ptr))
              \<and> AtomicallyReadVersionPtr h' table slot \<noteq> Some version_ptr))"
  by (auto simp: TruncateVersionChain_pass_def CompareAndSwapVersionPtr_def AtomicallyReadVersionPtr_def
      Let_def split: option.splits traversal.splits if_splits)

lemma pass_quiet_returns:
  assumes "ranked f h"
  shows "\<exists>h'. TruncateVersionChain_pass table slot oldest id h = Some (Return h')"
proof (cases "AtomicallyReadVersionPtr h table slot")
  case None
  then show ?thesis by (simp add: TruncateVersionChain_pass_def)
next
  case (Some v)
  obtain r where "traverse_chain h oldest v = Some r"
    using traverse_chain_returns [OF assms] by blast
  with Some show ?thesis
    by (auto simp: TruncateVersionChain_pass_def CompareAndSwapVersionPtr_def
        AtomicallyReadVersionPtr_def Let_def store_Next_def split: traversal.splits)
qed

lemma pass_returns:
  assumes "ranked f h"
  shows "\<exists>out. TruncateVersionChain_pass table slot oldest w h = Some out"
proof (cases "AtomicallyReadVersionPtr h table slot")
  case None
  then show ?thesis by (simp add: TruncateVersionChain_pass_def)
next
  case (Some v)
  obtain r where "traverse_chain h oldest v = Some r"
    using traverse_chain_returns [OF assms] by blast
  with Some show ?thesis
    by (auto simp: TruncateVersionChain_pass_def CompareAndSwapVersionPtr_def
        Let_def split: traversal.splits)
qed

lemma pass_ranked:
  assumes "TruncateVersionChain_pass table slot oldest w h = Some out"
    and "ranked f h" and "\<And>h. ranked f h \<Longrightarrow> ranked f (w h)"
  shows "ranked f (heap_of out)"
proof -
  have cas: "ranked f (snd (CompareAndSwapVersionPtr (w h) table slot e d))" for e d
    using assms(2,3) by (simp add: ranked_def undo_records_CAS)
  have "ranked f (w (store_Next h c None))" for c
    using assms(2,3) by (simp add: ranked_store_Next)
  with assms cas [of "AtomicallyReadVersionPtr h table slot" None] show ?thesis
    by (auto simp: TruncateVersionChain_pass_def Let_def
        split: option.splits traversal.splits if_splits prod.splits bool.splits)
qed

lemma TruncateVersionChain_returns:
  assumes "\<forall>w \<in> set ws. \<forall>h. ranked f h \<longrightarrow> ranked f (w h)" and "ranked f h"
  shows "\<exists>r. TruncateVersionChain table slot oldest ws h = Some r"
  using assms
proof (induction ws arbitrary: h)
  case Nil
  obtain h' where "TruncateVersionChain_pass table slot oldest id h = Some (Return h')"
    using pass_quiet_returns [OF Nil(2)] by blast
  then show ?case by (subst TruncateVersionChain.simps) (simp add: next_writes_def)
next
  case (Cons w ws)
  obtain out where out: "TruncateVersionChain_pass table slot oldest w h = Some out"
    using pass_returns [OF Cons.prems(2)] by blast
  show ?case
  proof (cases out)
    case (Return h')
    with out show ?thesis by (subst TruncateVersionChain.simps) (simp add: next_writes_def)
  next
    case (Restart h')
    have "ranked f (heap_of out)"
      using out Cons.prems by (intro pass_ranked [where w = w]) auto
    with Restart have "ranked f h'" by simp
    with Cons obtain r where "TruncateVersionChain table slot oldest ws h' = Some r" by fastforce
    with out Restart show ?thesis by (subst TruncateVersionChain.simps) (simp add: next_writes_def)
  qed
qed

lemmas chain_eval = TruncateVersionChain_pass_def AtomicallyReadVersionPtr_def
  CompareAndSwapVersionPtr_def store_Next_def set_version_ptr_def NewerThan_def Committed_def
  traverse_chain.simps TruncateVersionChain.simps next_writes_def empty_table_def no_record_def

text \<open>
  C3, as the claim states it, fails: on the chain 3, 2, 1 the head (record 3) is
  uncommitted and the chain is cut after record 2. While the pass runs, the transaction
  of the head aborts and the version pointer changes from record 3 to record 2. The
  pass returns; it does not restart.
\<close>

theorem TruncateVersionChain_pass_no_restart_after_deep_cut:
  "AtomicallyReadVersionPtr chain3 0 0 = Some 3
   \<and> \<not> Committed (Timestamp (undo_records chain3 3))
   \<and> map_option is_Return
        (TruncateVersionChain_pass 0 0 5 (set_version_ptr 0 0 (Some 2)) chain3) = Some True
   \<and> map_option (\<lambda>out. AtomicallyReadVersionPtr (heap_of out) 0 0)
        (TruncateVersionChain_pass 0 0 5 (set_version_ptr 0 0 (Some 2)) chain3) = Some (Some 2)"
  by (simp add: chain3_def chain_eval)

text \<open>
  C3, amended: a pass of \<^verbatim>\<open>TruncateVersionChain\<close> restarts from step 1 exactly in two
  cases. Either the whole chain can be cut (the head is older than \<open>oldest\<close>) and the
  compare-and-swap of the version pointer fails because the pointer has changed; or the
  chain was cut right after the original head, the head is uncommitted and the version
  pointer has changed. (When the chain is cut after a later record, or the traversal
  reaches the end of the chain, the pass returns whatever happened to the head.) A
  restart runs the procedure again on the heap as it is then. The conflicts stay inside
  the procedure, which has no error to return: when the writes of the other threads are
  finitely many and keep the chains free of cycles, the procedure returns.
\<close>

theorem TruncateVersionChain_restarts_locally:
  "(TruncateVersionChain_pass table slot oldest concurrent h = Some (Restart h') \<longleftrightarrow>
      (\<exists>version_ptr. AtomicallyReadVersionPtr h table slot = Some version_ptr \<and>
         (if NewerThan oldest (Timestamp (undo_records h version_ptr))
          then h' = concurrent h \<and> AtomicallyReadVersionPtr h' table slot \<noteq> Some version_ptr
          else traverse_chain h oldest version_ptr = Some (CutAfter version_ptr)
               \<and> h' = concurrent (store_Next h version_ptr None)
               \<and> \<not> Committed (Timestamp (undo_records h' version_ptr))
               \<and> AtomicallyReadVersionPtr h' table slot \<noteq> Some version_ptr)))
   \<and> (TruncateVersionChain_pass table slot oldest (next_writes ws) h = Some (Restart h') \<longrightarrow>
        TruncateVersionChain table slot oldest ws h = TruncateVersionChain table slot oldest (tl ws) h')
   \<and> (ranked f h \<and> (\<forall>w \<in> set ws. \<forall>g. ranked f g \<longrightarrow> ranked f (w g)) \<longrightarrow>
        (\<exists>r. TruncateVersionChain table slot oldest ws h = Some r))"
proof (intro conjI impI)
  show "TruncateVersionChain table slot oldest ws h = TruncateVersionChain table slot oldest (tl ws) h'"
    if "TruncateVersionChain_pass table slot oldest (next_writes ws) h = Some (Restart h')"
    using that by (subst TruncateVersionChain.simps) simp
  show "\<exists>r. TruncateVersionChain table slot oldest ws h = Some r"
    if "ranked f h \<and> (\<forall>w \<in> set ws. \<forall>g. ranked f g \<longrightarrow> ranked f (w g))"
    using that TruncateVersionChain_returns [of ws f h] by blast
qed (rule pass_restarts_iff)

theorem TruncateVersionChain_restarts_locally_witness:
  "map_option is_Return
     (TruncateVersionChain_pass 0 0 5 (set_version_ptr 0 0 (Some 1)) chain2) = Some False
   \<and> map_option (\<lambda>r. AtomicallyReadVersionPtr (fst r) 0 0)
       (TruncateVersionChain 0 0 5 [set_version_ptr 0 0 (Some 1)] chain2) = Some None
   \<and> (\<exists>r. TruncateVersionChain 0 0 5 [set_version_ptr 0 0 (Some 1)] chain2 = Some r)"
proof -
  have "ranked id chain2"
    by (simp add: ranked_def chain2_def no_record_def)
  moreover have "\<forall>w \<in> set [set_version_ptr 0 0 (Some 1)]. \<forall>g. ranked id g \<longrightarrow> ranked id (w g)"
    by (simp add: ranked_def set_version_ptr_def)
  ultimately have "\<exists>r. TruncateVersionChain 0 0 5 [set_version_ptr 0 0 (Some 1)] chain2 = Some r"
    using TruncateVersionChain_restarts_locally
      [of 0 0 5 id chain2 chain2 "[set_version_ptr 0 0 (Some 1)]" id]
    by blast
  then show ?thesis by (simp add: chain2_def chain_eval)
qed

text \<open>
  C9: when \<^verbatim>\<open>TruncateVersionChain\<close> reads a non-null head whose timestamp is not older
  than \<open>oldest\<close>, what a pass itself writes leaves every version pointer as it was: the
  heap it ends with is the heap the other threads' writes make of \<open>own\<close>, where \<open>own\<close>
  is the heap the pass started on, either untouched or with null stored into the \<open>Next\<close>
  of one record of the chain (one that had a successor). Without concurrent writes the
  whole call ends that way, does not restart, and the version pointer of the slot is
  still the head it read.
\<close>

theorem TruncateVersionChain_keeps_head:
  assumes head: "AtomicallyReadVersionPtr h table slot = Some version_ptr"
    and visible: "\<not> NewerThan oldest (Timestamp (undo_records h version_ptr))"
  shows "(TruncateVersionChain_pass table slot oldest concurrent h = Some out \<longrightarrow>
            (\<exists>own. heap_of out = concurrent own \<and> tables own = tables h \<and>
               (own = h \<or> (\<exists>cur n. on_chain h version_ptr cur \<and> Next (undo_records h cur) = Some n
                              \<and> own = store_Next h cur None))))
       \<and> (TruncateVersionChain table slot oldest [] h = Some (h', ws) \<longrightarrow>
            AtomicallyReadVersionPtr h' table slot = Some version_ptr \<and> tables h' = tables h \<and>
            (h' = h \<or> (\<exists>cur n. on_chain h version_ptr cur \<and> Next (undo_records h cur) = Some n
                           \<and> h' = store_Next h cur None)))"
proof -
  have pass: "\<exists>own. heap_of out = w own \<and> tables own = tables h \<and>
               (own = h \<or> (\<exists>cur n. on_chain h version_ptr cur \<and> Next (undo_records h cur) = Some n
                              \<and> own = store_Next h cur None))"
    if "TruncateVersionChain_pass table slot oldest w h = Some out" for w out
  proof (cases "traverse_chain h oldest version_ptr")
    case None
    with that head visible show ?thesis by (simp add: TruncateVersionChain_pass_def)
  next
    case (Some r)
    show ?thesis
    proof (cases r)
      case ReachedEnd
      with Some that head visible have "heap_of out = w h"
        by (auto simp: TruncateVersionChain_pass_def)
      then show ?thesis by blast
    next
      case (CutAfter c)
      with Some that head visible have "heap_of out = w (store_Next h c None)"
        by (auto simp: TruncateVersionChain_pass_def Let_def split: if_splits)
      moreover from Some CutAfter have "on_chain h version_ptr c \<and>
          (\<exists>n. Next (undo_records h c) = Some n \<and> NewerThan oldest (Timestamp (undo_records h n)))"
        by (intro traverse_chain_cut) (auto intro: on_chain.head)
      ultimately show ?thesis by (metis tables_store_Next)
    qed
  qed
  have call: "AtomicallyReadVersionPtr h' table slot = Some version_ptr \<and> tables h' = tables h \<and>
            (h' = h \<or> (\<exists>cur n. on_chain h version_ptr cur \<and> Next (undo_records h cur) = Some n
                           \<and> h' = store_Next h cur None))"
    if run: "TruncateVersionChain table slot oldest [] h = Some (h', ws)"
  proof -
    from run obtain out where out: "TruncateVersionChain_pass table slot oldest id h = Some out"
      by (subst (asm) TruncateVersionChain.simps) (auto simp: next_writes_def split: option.splits)
    have "out \<noteq> Restart g" for g
      using out head visible pass_restarts_iff [of table slot oldest id h g]
      by auto
    then obtain g where g: "out = Return g" by (cases out) auto
    with run out have "h' = g"
      by (subst (asm) TruncateVersionChain.simps) (simp add: next_writes_def)
    with pass [OF out] g head show ?thesis
      by (auto simp: AtomicallyReadVersionPtr_def)
  qed
  from pass call show ?thesis by blast
qed

theorem TruncateVersionChain_keeps_head_witness:
  "\<not> NewerThan 5 (Timestamp (undo_records chain3 3))
   \<and> map_option fst (TruncateVersionChain 0 0 5 [] chain3) = Some (store_Next chain3 2 None)
   \<and> AtomicallyReadVersionPtr (store_Next chain3 2 None) 0 0 = Some 3"
  using TruncateVersionChain_keeps_head [of chain3 0 0 3 5 id "Return (store_Next chain3 2 None)"
      "store_Next chain3 2 None" "[]"]
  by (simp add: chain3_def chain_eval)

section \<open>Properties of the unlink queue and of a tick\<close>

lemma events_simps [simp]:
  "deleted_txns [] = []" "deleted_txns (es @ es') = deleted_txns es @ deleted_txns es'"
  "truncated_slots [] = []" "truncated_slots (es @ es') = truncated_slots es @ truncated_slots es'"
  "reclaimed_buffers [] = []" "reclaimed_buffers (es @ es') = reclaimed_buffers es @ reclaimed_buffers es'"
  "reclaimed_slots [] = []" "reclaimed_slots (es @ es') = reclaimed_slots es @ reclaimed_slots es'"
  by (simp_all add: deleted_txns_def truncated_slots_def reclaimed_buffers_def reclaimed_slots_def)

lemma events_Cons [simp]:
  "deleted_txns (e # es) = (case e of Deleted txn \<Rightarrow> [txn] | _ \<Rightarrow> []) @ deleted_txns es"
  "truncated_slots (e # es) = (case e of Truncated table slot \<Rightarrow> [slot] | _ \<Rightarrow> []) @ truncated_slots es"
  "reclaimed_buffers (e # es) = (case e of ReclaimedBuffer txn u \<Rightarrow> [(txn, u)] | _ \<Rightarrow> []) @ reclaimed_buffers es"
  "reclaimed_slots (e # es) = (case e of ReclaimedSlot u \<Rightarrow> [u] | _ \<Rightarrow> []) @ reclaimed_slots es"
  by (simp_all add: deleted_txns_def truncated_slots_def reclaimed_buffers_def reclaimed_slots_def
      split: gc_event.splits)

lemma new_events_append: "trace st' = trace st @ new \<Longrightarrow> new_events st st' = new"
  by (simp add: new_events_def)

lemma frame_fixed:
  assumes "loop_frame st' = loop_frame st"
  shows "undo_buffer (txns st' p) = undo_buffer (txns st p)"
    and "TxnId (txns st' p) = TxnId (txns st p)"
    and "aborted (txns st' p) = aborted (txns st p)"
    and "log_processed (txns st' p) = log_processed (txns st p)"
    and "read_only st' = read_only st"
    and "unlinkable oldest st' = unlinkable oldest st"
    and "still_visible oldest st' = still_visible oldest st"
proof -
  from assms have "fixed_part (txns st' q) = fixed_part (txns st q)" for q
    by (simp add: loop_frame_def fun_eq_iff)
  then have *: "undo_buffer (txns st' q) = undo_buffer (txns st q) \<and> TxnId (txns st' q) = TxnId (txns st q)
      \<and> aborted (txns st' q) = aborted (txns st q) \<and> log_processed (txns st' q) = log_processed (txns st q)" for q
    by (simp add: fixed_part_def)
  then show "undo_buffer (txns st' p) = undo_buffer (txns st p)"
    and "TxnId (txns st' p) = TxnId (txns st p)"
    and "aborted (txns st' p) = aborted (txns st p)"
    and "log_processed (txns st' p) = log_processed (txns st p)"
    by simp_all
  from * show "read_only st' = read_only st" by (simp add: read_only_def fun_eq_iff)
  from * show "unlinkable oldest st' = unlinkable oldest st" by (simp add: unlinkable_def fun_eq_iff)
  from * show "still_visible oldest st' = still_visible oldest st" by (simp add: still_visible_def fun_eq_iff)
qed

lemma truncate_unvisited_effect:
  assumes "truncate_unvisited oldest undo_record (st, vis) = Some (st', vis')"
  shows "unlink_frame st' = unlink_frame st \<and> txns st' = txns st
     \<and> vis' = (case Table (undo_records (mem st) undo_record) of None \<Rightarrow> vis
                | Some t \<Rightarrow> insert (Slot (undo_records (mem st) undo_record)) vis)
     \<and> trace st' = trace st @
         (case Table (undo_records (mem st) undo_record) of None \<Rightarrow> []
          | Some t \<Rightarrow> if Slot (undo_records (mem st) undo_record) \<in> vis then []
                      else [Truncated t (Slot (undo_records (mem st) undo_record))])"
  using assms
  by (auto simp: truncate_unvisited_def Let_def unlink_frame_def loop_frame_def
      split: option.splits if_splits)

lemma fold_frame:
  assumes "\<And>i s. unlink_frame (g i s) = unlink_frame s \<and> trace (g i s) = trace s \<and> mem (g i s) = mem s \<and> others (g i s) = others s"
  shows "unlink_frame (fold g is s) = unlink_frame s \<and> trace (fold g is s) = trace s \<and> mem (fold g is s) = mem s \<and> others (fold g is s) = others s"
  by (induction "is" arbitrary: s) (simp_all add: assms)

lemma reclaim_varlen_frame:
  "unlink_frame (reclaim_varlen txn e s) = unlink_frame s \<and> trace (reclaim_varlen txn e s) = trace s
   \<and> mem (reclaim_varlen txn e s) = mem s \<and> others (reclaim_varlen txn e s) = others s"
  by (simp add: reclaim_varlen_def push_back_loose_ptr_def unlink_frame_def loop_frame_def
      fixed_part_def fun_eq_iff split: option.splits)

lemma ReclaimBufferIfVarlen_frame:
  assumes "ReclaimBufferIfVarlen txn undo_record st = Inr st'"
  shows "unlink_frame st' = unlink_frame st \<and> trace st' = trace st \<and> mem st' = mem st \<and> others st' = others st"
proof -
  have d: "unlink_frame (reclaim_delete_column txn table slot i s) = unlink_frame s
      \<and> trace (reclaim_delete_column txn table slot i s) = trace s
      \<and> mem (reclaim_delete_column txn table slot i s) = mem s
      \<and> others (reclaim_delete_column txn table slot i s) = others s" for table slot i s
    by (simp add: reclaim_delete_column_def reclaim_varlen_frame)
  have u: "unlink_frame (reclaim_update_column txn table delta i s) = unlink_frame s
      \<and> trace (reclaim_update_column txn table delta i s) = trace s
      \<and> mem (reclaim_update_column txn table delta i s) = mem s
      \<and> others (reclaim_update_column txn table delta i s) = others s" for table delta i s
    by (simp add: reclaim_update_column_def Let_def reclaim_varlen_frame)
  from assms show ?thesis
    by (auto simp: ReclaimBufferIfVarlen_def Let_def fold_frame [OF d] fold_frame [OF u]
        split: option.splits DeltaRecordType.splits)
qed

lemma ReclaimSlotIfDeleted_frame:
  assumes "ReclaimSlotIfDeleted undo_record st = Inr st'"
  shows "unlink_frame st' = unlink_frame st \<and> trace st' = trace st \<and> txns st' = txns st
    \<and> undo_records (mem st') = undo_records (mem st) \<and> others st' = others st"
  using assms
  by (auto simp: ReclaimSlotIfDeleted_def Let_def unlink_frame_def loop_frame_def
      split: option.splits if_splits)

lemma reclaim_unless_aborted_effect:
  assumes "reclaim_unless_aborted txn undo_record st = Inr st'"
  shows "unlink_frame st' = unlink_frame st \<and> others st' = others st
     \<and> undo_records (mem st') = undo_records (mem st)
     \<and> trace st' = trace st @
         (if aborted (txns st txn) then [] else [ReclaimedSlot undo_record, ReclaimedBuffer txn undo_record])"
proof (cases "aborted (txns st txn)")
  case True
  with assms show ?thesis by (simp add: reclaim_unless_aborted_def)
next
  case False
  with assms obtain st1 where
    1: "ReclaimSlotIfDeleted undo_record (st\<lparr>trace := trace st @ [ReclaimedSlot undo_record]\<rparr>) = Inr st1"
    and 2: "ReclaimBufferIfVarlen txn undo_record
               (st1\<lparr>trace := trace st1 @ [ReclaimedBuffer txn undo_record]\<rparr>) = Inr st'"
    by (auto simp: reclaim_unless_aborted_def split: sum.splits)
  from ReclaimSlotIfDeleted_frame [OF 1] ReclaimBufferIfVarlen_frame [OF 2] False
  show ?thesis
    by (simp add: unlink_frame_def loop_frame_def)
qed

lemma unlink_records_effect:
  "unlink_records oldest txn us (st, vis) = Some (Inr (st', vis')) \<Longrightarrow>
     unlink_frame st' = unlink_frame st \<and> vis \<subseteq> vis' \<and>
     (\<exists>new. trace st' = trace st @ new \<and> deleted_txns new = [] \<and>
        distinct (truncated_slots new) \<and> set (truncated_slots new) \<inter> vis = {} \<and>
        set (truncated_slots new) \<subseteq> vis' \<and>
        reclaimed_buffers new = (if aborted (txns st txn) then [] else map (Pair txn) us) \<and>
        reclaimed_slots new = (if aborted (txns st txn) then [] else us))"
proof (induction us arbitrary: st vis)
  case Nil
  then show ?case by simp
next
  case (Cons u us)
  obtain st1 vis1 where t: "truncate_unvisited oldest u (st, vis) = Some (st1, vis1)"
    using Cons.prems by (cases "truncate_unvisited oldest u (st, vis)") auto
  obtain st2 where r: "reclaim_unless_aborted txn u st1 = Inr st2"
    using Cons.prems t by (cases "reclaim_unless_aborted txn u st1") auto
  have rest: "unlink_records oldest txn us (st2, vis1) = Some (Inr (st', vis'))"
    using Cons.prems t r by simp
  note T = truncate_unvisited_effect [OF t]
  note R = reclaim_unless_aborted_effect [OF r]
  from Cons.IH [OF rest] obtain new where
    f: "unlink_frame st' = unlink_frame st2" and v: "vis1 \<subseteq> vis'"
    and tr: "trace st' = trace st2 @ new" and d: "deleted_txns new = []"
    and dist: "distinct (truncated_slots new)" and disj: "set (truncated_slots new) \<inter> vis1 = {}"
    and sub: "set (truncated_slots new) \<subseteq> vis'"
    and rb: "reclaimed_buffers new = (if aborted (txns st2 txn) then [] else map (Pair txn) us)"
    and rs: "reclaimed_slots new = (if aborted (txns st2 txn) then [] else us)"
    by blast
  have "loop_frame st2 = loop_frame st"
    using T R by (simp add: unlink_frame_def)
  then have ab: "aborted (txns st2 txn) = aborted (txns st txn)"
    by (rule frame_fixed(3))
  define first where "first =
         (case Table (undo_records (mem st) u) of None \<Rightarrow> []
          | Some t \<Rightarrow> if Slot (undo_records (mem st) u) \<in> vis then []
                      else [Truncated t (Slot (undo_records (mem st) u))])
         @ (if aborted (txns st txn) then [] else [ReclaimedSlot u, ReclaimedBuffer txn u])"
  have tr': "trace st' = trace st @ (first @ new)"
    using T R tr by (simp add: first_def)
  have vis1: "vis \<subseteq> vis1" using T by (auto split: option.splits)
  have ts_first: "set (truncated_slots first) \<subseteq> vis1 \<and> set (truncated_slots first) \<inter> vis = {}
      \<and> distinct (truncated_slots first)"
    using T by (auto simp: first_def split: option.splits)
  have "unlink_frame st' = unlink_frame st" using f T R by simp
  moreover have "vis \<subseteq> vis'" using vis1 v by blast
  moreover have "deleted_txns (first @ new) = []" using d by (simp add: first_def split: option.splits)
  moreover have "distinct (truncated_slots (first @ new))"
    using dist ts_first disj by auto
  moreover have "set (truncated_slots (first @ new)) \<inter> vis = {}"
    using ts_first disj vis1 by auto
  moreover have "set (truncated_slots (first @ new)) \<subseteq> vis'"
    using ts_first sub v by auto
  moreover have "reclaimed_buffers (first @ new) = (if aborted (txns st txn) then [] else map (Pair txn) (u # us))"
    using rb ab by (simp add: first_def split: option.splits)
  moreover have "reclaimed_slots (first @ new) = (if aborted (txns st txn) then [] else u # us)"
    using rs ab by (simp add: first_def split: option.splits)
  ultimately show ?case using tr' by blast
qed

lemma unlink_loop_effect:
  assumes "unlink_loop oldest q (st, vis, rq, n) = Some (Inr (st', vis', rq', n'))"
    and "loop_frame st = loop_frame st0"
  shows "loop_frame st' = loop_frame st0
     \<and> txns_to_deallocate st' = rev (filter (unlinkable oldest st0) q) @ txns_to_deallocate st
     \<and> rq' = rev (filter (still_visible oldest st0) q) @ rq
     \<and> n' = n + of_nat (length (filter (\<lambda>txn. read_only st0 txn \<or> unlinkable oldest st0 txn) q))
     \<and> vis \<subseteq> vis'
     \<and> (\<exists>new. trace st' = trace st @ new
          \<and> deleted_txns new = filter (read_only st0) q
          \<and> distinct (truncated_slots new) \<and> set (truncated_slots new) \<inter> vis = {}
          \<and> set (truncated_slots new) \<subseteq> vis'
          \<and> reclaimed_buffers new =
               concat (map (\<lambda>txn. map (Pair txn) (undo_buffer (txns st0 txn)))
                 (filter (\<lambda>txn. unlinkable oldest st0 txn \<and> \<not> aborted (txns st0 txn)) q))
          \<and> reclaimed_slots new =
               concat (map (\<lambda>txn. undo_buffer (txns st0 txn))
                 (filter (\<lambda>txn. unlinkable oldest st0 txn \<and> \<not> aborted (txns st0 txn)) q)))"
  using assms
proof (induction q arbitrary: st vis rq n)
  case Nil
  then show ?case by simp
next
  case (Cons txn q)
  note fr = Cons.prems(2)
  have ub: "undo_buffer (txns st txn) = undo_buffer (txns st0 txn)"
    and id: "TxnId (txns st txn) = TxnId (txns st0 txn)"
    and ab: "aborted (txns st txn) = aborted (txns st0 txn)"
    using fr by (rule frame_fixed)+
  consider (ro) "read_only st0 txn" | (un) "unlinkable oldest st0 txn" | (vi) "still_visible oldest st0 txn"
    by (auto simp: read_only_def unlinkable_def still_visible_def)
  then show ?case
  proof cases
    case ro
    then have no: "\<not> unlinkable oldest st0 txn" "\<not> still_visible oldest st0 txn"
      by (simp_all add: read_only_def unlinkable_def still_visible_def)
    let ?st1 = "st\<lparr>trace := trace st @ [Deleted txn]\<rparr>"
    from ro ub Cons.prems(1)
    have run: "unlink_loop oldest q (?st1, vis, rq, n + 1) = Some (Inr (st', vis', rq', n'))"
      by (simp add: read_only_def)
    have "loop_frame ?st1 = loop_frame st0" using fr by (simp add: loop_frame_def)
    from Cons.IH [OF run this] ro no show ?thesis
      by (auto simp: algebra_simps)
  next
    case vi
    then have no: "\<not> unlinkable oldest st0 txn" "\<not> read_only st0 txn"
      by (simp_all add: read_only_def unlinkable_def still_visible_def)
    from vi ub id Cons.prems(1)
    have run: "unlink_loop oldest q (st, vis, txn # rq, n) = Some (Inr (st', vis', rq', n'))"
      by (simp add: still_visible_def)
    from Cons.IH [OF run fr] vi no show ?thesis
      by auto
  next
    case un
    then have no: "\<not> still_visible oldest st0 txn" "\<not> read_only st0 txn"
      by (simp_all add: read_only_def unlinkable_def still_visible_def)
    from un ub id have c: "undo_buffer (txns st txn) \<noteq> []" "NewerThan oldest (TxnId (txns st txn))"
      by (simp_all add: unlinkable_def)
    obtain st2 vis2 where
      recs: "unlink_records oldest txn (undo_buffer (txns st txn)) (st, vis) = Some (Inr (st2, vis2))"
      using Cons.prems(1) c
      by (cases "unlink_records oldest txn (undo_buffer (txns st txn)) (st, vis)")
         (auto split: sum.splits)
    let ?st3 = "st2\<lparr>txns_to_deallocate := txn # txns_to_deallocate st2\<rparr>"
    have run: "unlink_loop oldest q (?st3, vis2, rq, n + 1) = Some (Inr (st', vis', rq', n'))"
      using Cons.prems(1) c recs by simp
    from unlink_records_effect [OF recs] obtain first where
      f2: "unlink_frame st2 = unlink_frame st" and v2: "vis \<subseteq> vis2"
      and tr2: "trace st2 = trace st @ first" and d2: "deleted_txns first = []"
      and dist2: "distinct (truncated_slots first)" and disj2: "set (truncated_slots first) \<inter> vis = {}"
      and sub2: "set (truncated_slots first) \<subseteq> vis2"
      and rb2: "reclaimed_buffers first =
          (if aborted (txns st txn) then [] else map (Pair txn) (undo_buffer (txns st txn)))"
      and rs2: "reclaimed_slots first = (if aborted (txns st txn) then [] else undo_buffer (txns st txn))"
      by blast
    have fr3: "loop_frame ?st3 = loop_frame st0"
      using f2 fr by (simp add: unlink_frame_def loop_frame_def)
    have td3: "txns_to_deallocate ?st3 = txn # txns_to_deallocate st"
      using f2 by (simp add: unlink_frame_def)
    from Cons.IH [OF run fr3] obtain new where
      f: "loop_frame st' = loop_frame st0"
      and td: "txns_to_deallocate st' = rev (filter (unlinkable oldest st0) q) @ txns_to_deallocate ?st3"
      and rq: "rq' = rev (filter (still_visible oldest st0) q) @ rq"
      and n: "n' = n + 1 + of_nat (length (filter (\<lambda>txn. read_only st0 txn \<or> unlinkable oldest st0 txn) q))"
      and v: "vis2 \<subseteq> vis'"
      and tr: "trace st' = trace ?st3 @ new"
      and d: "deleted_txns new = filter (read_only st0) q"
      and dist: "distinct (truncated_slots new)" and disj: "set (truncated_slots new) \<inter> vis2 = {}"
      and sub: "set (truncated_slots new) \<subseteq> vis'"
      and rb: "reclaimed_buffers new =
               concat (map (\<lambda>txn. map (Pair txn) (undo_buffer (txns st0 txn)))
                 (filter (\<lambda>txn. unlinkable oldest st0 txn \<and> \<not> aborted (txns st0 txn)) q))"
      and rs: "reclaimed_slots new =
               concat (map (\<lambda>txn. undo_buffer (txns st0 txn))
                 (filter (\<lambda>txn. unlinkable oldest st0 txn \<and> \<not> aborted (txns st0 txn)) q))"
      by blast
    have tr': "trace st' = trace st @ (first @ new)" using tr tr2 by simp
    have "txns_to_deallocate st' = rev (filter (unlinkable oldest st0) (txn # q)) @ txns_to_deallocate st"
      using td td3 un by simp
    moreover have "rq' = rev (filter (still_visible oldest st0) (txn # q)) @ rq"
      using rq no by simp
    moreover have "n' = n + of_nat (length (filter (\<lambda>txn. read_only st0 txn \<or> unlinkable oldest st0 txn) (txn # q)))"
      using n un by (simp add: algebra_simps)
    moreover have "vis \<subseteq> vis'" using v2 v by blast
    moreover have "deleted_txns (first @ new) = filter (read_only st0) (txn # q)"
      using d d2 no by simp
    moreover have "distinct (truncated_slots (first @ new))"
      using dist dist2 disj sub2 by auto
    moreover have "set (truncated_slots (first @ new)) \<inter> vis = {}"
      using disj disj2 v2 by auto
    moreover have "set (truncated_slots (first @ new)) \<subseteq> vis'"
      using sub sub2 v by auto
    moreover have "reclaimed_buffers (first @ new) =
               concat (map (\<lambda>txn. map (Pair txn) (undo_buffer (txns st0 txn)))
                 (filter (\<lambda>txn. unlinkable oldest st0 txn \<and> \<not> aborted (txns st0 txn)) (txn # q)))"
      using rb rb2 un ab ub by simp
    moreover have "reclaimed_slots (first @ new) =
               concat (map (\<lambda>txn. undo_buffer (txns st0 txn))
                 (filter (\<lambda>txn. unlinkable oldest st0 txn \<and> \<not> aborted (txns st0 txn)) (txn # q)))"
      using rs rs2 un ab ub by simp
    ultimately show ?thesis using f tr' by blast
  qed
qed

lemma pass_quiet_Table:
  assumes "TruncateVersionChain_pass table slot oldest id h = Some out"
  shows "Table (undo_records (heap_of out) u) = Table (undo_records h u)"
  using assms
  by (auto simp: TruncateVersionChain_pass_def Let_def CompareAndSwapVersionPtr_def store_Next_def
      split: option.splits traversal.splits if_splits)

lemma TruncateVersionChain_quiet:
  assumes "ranked f h"
  shows "\<exists>h'. TruncateVersionChain table slot oldest [] h = Some (h', []) \<and> ranked f h'
           \<and> (\<forall>u. Table (undo_records h' u) = Table (undo_records h u))"
proof -
  obtain h' where p: "TruncateVersionChain_pass table slot oldest id h = Some (Return h')"
    using pass_quiet_returns [OF assms] by blast
  then have "TruncateVersionChain table slot oldest [] h = Some (h', [])"
    by (subst TruncateVersionChain.simps) (simp add: next_writes_def)
  moreover have "ranked f h'"
    using pass_ranked [OF p assms] by simp
  moreover have "\<forall>u. Table (undo_records h' u) = Table (undo_records h u)"
    using pass_quiet_Table [OF p] by simp
  ultimately show ?thesis by blast
qed

lemma truncate_unvisited_quiet:
  assumes "quiet f T st"
  shows "\<exists>st' vis'. truncate_unvisited oldest u (st, vis) = Some (st', vis') \<and> quiet f T st'"
proof (cases "Table (undo_records (mem st) u)")
  case None
  with assms show ?thesis by (simp add: truncate_unvisited_def)
next
  case (Some t)
  show ?thesis
  proof (cases "Slot (undo_records (mem st) u) \<in> vis")
    case True
    with Some assms show ?thesis by (simp add: truncate_unvisited_def)
  next
    case False
    from assms have "ranked f (mem st)" and o: "others st = []" by (simp_all add: quiet_def)
    from TruncateVersionChain_quiet [OF this(1), of t "Slot (undo_records (mem st) u)" oldest]
    obtain h' where "TruncateVersionChain t (Slot (undo_records (mem st) u)) oldest [] (mem st) = Some (h', [])"
      and "ranked f h'" and "\<forall>u. Table (undo_records h' u) = Table (undo_records (mem st) u)"
      by blast
    with Some False o assms show ?thesis
      by (simp add: truncate_unvisited_def quiet_def Let_def)
  qed
qed

lemma reclaim_unless_aborted_quiet:
  assumes "quiet f T st" and "aborted (txns st txn) \<or> T u \<noteq> None"
  shows "\<exists>st'. reclaim_unless_aborted txn u st = Inr st' \<and> quiet f T st'"
proof (cases "aborted (txns st txn)")
  case True
  with assms show ?thesis by (simp add: reclaim_unless_aborted_def)
next
  case False
  with assms obtain t where t: "Table (undo_records (mem st) u) = Some t"
    by (auto simp: quiet_def)
  let ?s0 = "st\<lparr>trace := trace st @ [ReclaimedSlot u]\<rparr>"
  from t have "\<exists>st1. ReclaimSlotIfDeleted u ?s0 = Inr st1"
    by (simp add: ReclaimSlotIfDeleted_def Let_def)
  then obtain st1 where 1: "ReclaimSlotIfDeleted u ?s0 = Inr st1" ..
  note F1 = ReclaimSlotIfDeleted_frame [OF 1]
  have q1: "quiet f T st1"
    using assms(1) F1 by (simp add: quiet_def ranked_def)
  let ?s1 = "st1\<lparr>trace := trace st1 @ [ReclaimedBuffer txn u]\<rparr>"
  from t F1 have "Table (undo_records (mem ?s1) u) = Some t" by simp
  then have "\<exists>st2. ReclaimBufferIfVarlen txn u ?s1 = Inr st2"
    by (simp add: ReclaimBufferIfVarlen_def Let_def split: DeltaRecordType.splits)
  then obtain st2 where 2: "ReclaimBufferIfVarlen txn u ?s1 = Inr st2" ..
  note F2 = ReclaimBufferIfVarlen_frame [OF 2]
  have "quiet f T st2"
    using q1 F2 by (simp add: quiet_def)
  with False 1 2 show ?thesis by (simp add: reclaim_unless_aborted_def)
qed

lemma unlink_records_returns:
  assumes "quiet f T st" and "aborted (txns st txn) \<or> (\<forall>u \<in> set us. T u \<noteq> None)"
  shows "\<exists>st' vis'. unlink_records oldest txn us (st, vis) = Some (Inr (st', vis')) \<and> quiet f T st'"
  using assms
proof (induction us arbitrary: st vis)
  case Nil
  then show ?case by simp
next
  case (Cons u us)
  obtain st1 vis1 where t: "truncate_unvisited oldest u (st, vis) = Some (st1, vis1)" and q1: "quiet f T st1"
    using truncate_unvisited_quiet [OF Cons.prems(1)] by blast
  note T = truncate_unvisited_effect [OF t]
  from T Cons.prems(2) have "aborted (txns st1 txn) \<or> T u \<noteq> None" by auto
  from reclaim_unless_aborted_quiet [OF q1 this]
  obtain st2 where r: "reclaim_unless_aborted txn u st1 = Inr st2" and q2: "quiet f T st2" by blast
  note R = reclaim_unless_aborted_effect [OF r]
  have "loop_frame st2 = loop_frame st" using T R by (simp add: unlink_frame_def)
  then have "aborted (txns st2 txn) = aborted (txns st txn)" by (rule frame_fixed(3))
  with Cons.prems(2) have "aborted (txns st2 txn) \<or> (\<forall>u \<in> set us. T u \<noteq> None)" by auto
  from Cons.IH [OF q2 this, of vis1] t r show ?case by simp
qed

lemma unlink_loop_returns:
  assumes "quiet f T st" and "loop_frame st = loop_frame st0"
    and "\<forall>txn \<in> set q. aborted (txns st0 txn) \<or> (\<forall>u \<in> set (undo_buffer (txns st0 txn)). T u \<noteq> None)"
  shows "\<exists>st' vis' rq' n'. unlink_loop oldest q (st, vis, rq, n) = Some (Inr (st', vis', rq', n'))
           \<and> quiet f T st'"
  using assms
proof (induction q arbitrary: st vis rq n)
  case Nil
  then show ?case by simp
next
  case (Cons txn q)
  note fr = Cons.prems(2)
  have ub: "undo_buffer (txns st txn) = undo_buffer (txns st0 txn)"
    using fr by (rule frame_fixed(1))
  have ab: "aborted (txns st txn) = aborted (txns st0 txn)"
    using fr by (rule frame_fixed(3))
  from Cons.prems(3) have rest: "\<forall>txn \<in> set q. aborted (txns st0 txn)
      \<or> (\<forall>u \<in> set (undo_buffer (txns st0 txn)). T u \<noteq> None)" by simp
  show ?case
  proof (cases "undo_buffer (txns st txn) = []")
    case True
    let ?st1 = "st\<lparr>trace := trace st @ [Deleted txn]\<rparr>"
    have "quiet f T ?st1" using Cons.prems(1) by (simp add: quiet_def)
    moreover have "loop_frame ?st1 = loop_frame st0" using fr by (simp add: loop_frame_def)
    ultimately obtain st' vis' rq' n' where
      "unlink_loop oldest q (?st1, vis, rq, n + 1) = Some (Inr (st', vis', rq', n'))" "quiet f T st'"
      using Cons.IH rest by blast
    with True have "unlink_loop oldest (txn # q) (st, vis, rq, n) = Some (Inr (st', vis', rq', n'))
        \<and> quiet f T st'" by simp
    then show ?thesis by blast
  next
    case False
    show ?thesis
    proof (cases "NewerThan oldest (TxnId (txns st txn))")
      case no: False
      obtain st' vis' rq' n' where
        "unlink_loop oldest q (st, vis, txn # rq, n) = Some (Inr (st', vis', rq', n'))" "quiet f T st'"
        using Cons.IH [OF Cons.prems(1) fr rest] by blast
      with False no have "unlink_loop oldest (txn # q) (st, vis, rq, n) = Some (Inr (st', vis', rq', n'))
        \<and> quiet f T st'" by simp
      then show ?thesis by blast
    next
      case True
      from Cons.prems(3) ub ab
      have "aborted (txns st txn) \<or> (\<forall>u \<in> set (undo_buffer (txns st txn)). T u \<noteq> None)" by simp
      from unlink_records_returns [OF Cons.prems(1) this, of oldest vis]
      obtain st2 vis2 where
        recs: "unlink_records oldest txn (undo_buffer (txns st txn)) (st, vis) = Some (Inr (st2, vis2))"
        and q2: "quiet f T st2" by blast
      let ?st3 = "st2\<lparr>txns_to_deallocate := txn # txns_to_deallocate st2\<rparr>"
      from unlink_records_effect [OF recs] have "unlink_frame st2 = unlink_frame st" by blast
      then have "loop_frame ?st3 = loop_frame st0"
        using fr by (simp add: unlink_frame_def loop_frame_def)
      moreover have "quiet f T ?st3" using q2 by (simp add: quiet_def)
      ultimately obtain st' vis' rq' n' where
        "unlink_loop oldest q (?st3, vis2, rq, n + 1) = Some (Inr (st', vis', rq', n'))" "quiet f T st'"
        using Cons.IH rest by blast
      with False True recs have "unlink_loop oldest (txn # q) (st, vis, rq, n) = Some (Inr (st', vis', rq', n'))
        \<and> quiet f T st'" by simp
      then show ?thesis by blast
    qed
  qed
qed

lemma preds_txn_manager [simp]:
  "read_only (st\<lparr>txn_manager := tm\<rparr>) = read_only st"
  "unlinkable oldest (st\<lparr>txn_manager := tm\<rparr>) = unlinkable oldest st"
  "still_visible oldest (st\<lparr>txn_manager := tm\<rparr>) = still_visible oldest st"
  by (simp_all add: read_only_def unlinkable_def still_visible_def fun_eq_iff)

lemma unlink_loop_trace:
  "unlink_loop oldest q (st, vis, rq, n) = Some (Inr (st', vis', rq', n')) \<Longrightarrow>
     \<exists>new. trace st' = trace st @ new"
  using unlink_loop_effect [of oldest q st vis rq n st' vis' rq' n' st] by blast

lemma ProcessUnlinkQueue_effect:
  assumes "ProcessUnlinkQueue st = Some (Inr (txns_processed, st'))"
  shows "let oldest = OldestTransactionStartTime (txn_manager st);
             queue = completed_txns (txn_manager st) @ txns_to_unlink st;
             new = new_events st st';
             unlinked = filter (unlinkable oldest st) queue
         in deleted_txns new = filter (read_only st) queue
            \<and> txns_to_deallocate st' = rev unlinked @ txns_to_deallocate st
            \<and> txns_to_unlink st' = rev (filter (still_visible oldest st) queue)
            \<and> distinct (truncated_slots new)
            \<and> reclaimed_slots new =
                 concat (map (\<lambda>txn. undo_buffer (txns st txn))
                   (filter (\<lambda>txn. \<not> aborted (txns st txn)) unlinked))
            \<and> reclaimed_buffers new =
                 concat (map (\<lambda>txn. map (Pair txn) (undo_buffer (txns st txn)))
                   (filter (\<lambda>txn. \<not> aborted (txns st txn)) unlinked))
            \<and> txns_processed =
                 of_nat (length (filter (\<lambda>txn. read_only st txn \<or> unlinkable oldest st txn) queue))
            \<and> last_unlinked st' = last_unlinked st
            \<and> txn_manager st' = (txn_manager st)\<lparr>completed_txns := []\<rparr>
            \<and> deferred_actions st' = deferred_actions st \<and> indexes st' = indexes st
            \<and> (\<forall>txn. fixed_part (txns st' txn) = fixed_part (txns st txn))
            \<and> trace st' = trace st @ new"
proof -
  define oldest where "oldest = OldestTransactionStartTime (txn_manager st)"
  define queue where "queue = completed_txns (txn_manager st) @ txns_to_unlink st"
  define st0 where "st0 = st\<lparr>txn_manager := (txn_manager st)\<lparr>completed_txns := []\<rparr>\<rparr>"
  have q: "(if completed_txns (txn_manager st) \<noteq> [] then completed_txns (txn_manager st) @ txns_to_unlink st
           else txns_to_unlink st) = queue"
    by (simp add: queue_def)
  have unf: "ProcessUnlinkQueue st =
      (case unlink_loop oldest queue (st0, {}, [], 0) of
         None \<Rightarrow> None
       | Some (Inl e) \<Rightarrow> Some (Inl e)
       | Some (Inr (st1, vis, rq, n)) \<Rightarrow> Some (Inr (n, st1\<lparr>txns_to_unlink := rq\<rparr>)))"
    by (simp add: ProcessUnlinkQueue_def CompletedTransactionsForGC_def oldest_def queue_def st0_def)
  obtain st1 vis rq where
    loop: "unlink_loop oldest queue (st0, {}, [], 0) = Some (Inr (st1, vis, rq, txns_processed))"
    and st': "st' = st1\<lparr>txns_to_unlink := rq\<rparr>"
  proof (cases "unlink_loop oldest queue (st0, {}, [], 0)")
    case None
    with assms unf show ?thesis by simp
  next
    case (Some r)
    show ?thesis
    proof (cases r)
      case (Inl e)
      with Some assms unf show ?thesis by simp
    next
      case (Inr t)
      obtain a b c d where "t = (a, b, c, d)" by (cases t)
      with Inr Some assms unf that show ?thesis by simp
    qed
  qed
  have pred: "read_only st0 = read_only st" "unlinkable oldest st0 = unlinkable oldest st"
    "still_visible oldest st0 = still_visible oldest st" "\<And>txn. txns st0 txn = txns st txn"
    by (simp_all add: st0_def read_only_def unlinkable_def still_visible_def fun_eq_iff)
  from unlink_loop_effect [OF loop refl] obtain new where
    f: "loop_frame st1 = loop_frame st0"
    and td: "txns_to_deallocate st1 = rev (filter (unlinkable oldest st0) queue) @ txns_to_deallocate st0"
    and rq: "rq = rev (filter (still_visible oldest st0) queue) @ []"
    and n: "txns_processed = 0 + of_nat (length (filter (\<lambda>txn. read_only st0 txn \<or> unlinkable oldest st0 txn) queue))"
    and tr: "trace st1 = trace st0 @ new"
    and d: "deleted_txns new = filter (read_only st0) queue"
    and dist: "distinct (truncated_slots new)"
    and rb: "reclaimed_buffers new =
               concat (map (\<lambda>txn. map (Pair txn) (undo_buffer (txns st0 txn)))
                 (filter (\<lambda>txn. unlinkable oldest st0 txn \<and> \<not> aborted (txns st0 txn)) queue))"
    and rs: "reclaimed_slots new =
               concat (map (\<lambda>txn. undo_buffer (txns st0 txn))
                 (filter (\<lambda>txn. unlinkable oldest st0 txn \<and> \<not> aborted (txns st0 txn)) queue))"
    by blast
  have ne: "new_events st st' = new"
    using tr st' by (simp add: st0_def new_events_def)
  have fl: "filter (\<lambda>txn. unlinkable oldest st txn \<and> \<not> aborted (txns st txn)) queue
      = filter (\<lambda>txn. \<not> aborted (txns st txn)) (filter (unlinkable oldest st) queue)"
    by (simp add: conj_commute)
  from f have fr: "last_unlinked st' = last_unlinked st"
    "txn_manager st' = (txn_manager st)\<lparr>completed_txns := []\<rparr>"
    "deferred_actions st' = deferred_actions st" "indexes st' = indexes st"
    "\<forall>txn. fixed_part (txns st' txn) = fixed_part (txns st txn)"
    by (simp_all add: loop_frame_def st' st0_def fun_eq_iff)
  have tr': "trace st' = trace st @ new"
    using tr st' by (simp add: st0_def)
  show ?thesis
    unfolding Let_def oldest_def [symmetric] queue_def [symmetric] ne
    using td rq n d dist rb rs fr st' tr'
    by (simp add: pred st0_def)
qed

lemma ProcessUnlinkQueue_returns:
  assumes "quiet f T st"
    and "\<forall>txn \<in> set (completed_txns (txn_manager st) @ txns_to_unlink st).
           aborted (txns st txn) \<or> (\<forall>u \<in> set (undo_buffer (txns st txn)). T u \<noteq> None)"
  shows "\<exists>n st'. ProcessUnlinkQueue st = Some (Inr (n, st')) \<and> quiet f T st'"
proof -
  define st0 where "st0 = st\<lparr>txn_manager := (txn_manager st)\<lparr>completed_txns := []\<rparr>\<rparr>"
  define queue where "queue = completed_txns (txn_manager st) @ txns_to_unlink st"
  define oldest where "oldest = OldestTransactionStartTime (txn_manager st)"
  have unf: "ProcessUnlinkQueue st =
      (case unlink_loop oldest queue (st0, {}, [], 0) of
         None \<Rightarrow> None
       | Some (Inl e) \<Rightarrow> Some (Inl e)
       | Some (Inr (st1, vis, rq, n)) \<Rightarrow> Some (Inr (n, st1\<lparr>txns_to_unlink := rq\<rparr>)))"
    by (simp add: ProcessUnlinkQueue_def CompletedTransactionsForGC_def oldest_def queue_def st0_def)
  have "quiet f T st0"
    using assms(1) by (simp add: quiet_def st0_def)
  moreover have "\<forall>txn \<in> set queue. aborted (txns st0 txn)
      \<or> (\<forall>u \<in> set (undo_buffer (txns st0 txn)). T u \<noteq> None)"
    using assms(2) by (simp add: st0_def queue_def)
  ultimately obtain st1 vis rq n where
    "unlink_loop oldest queue (st0, {}, [], 0) = Some (Inr (st1, vis, rq, n))" and "quiet f T st1"
    using unlink_loop_returns [OF _ refl, of f T st0 queue oldest "{}" "[]" 0] by blast
  then have "ProcessUnlinkQueue st = Some (Inr (n, st1\<lparr>txns_to_unlink := rq\<rparr>))
      \<and> quiet f T (st1\<lparr>txns_to_unlink := rq\<rparr>)"
    by (simp add: unf quiet_def)
  then show ?thesis by blast
qed

lemma deleted_txns_maps [simp]:
  "deleted_txns (map Deleted ps) = ps"
  "deleted_txns (map (\<lambda>a. Invoked (g a)) xs) = []"
  "deleted_txns (map IndexCollected is) = []"
  by (induction ps, simp_all) (induction xs, simp_all, induction "is", simp_all)

lemma Oldest_fields [simp]:
  "OldestTransactionStartTime (tm\<lparr>deferred_actions_tm := d\<rparr>) = OldestTransactionStartTime tm"
  "OldestTransactionStartTime (tm\<lparr>completed_txns := c\<rparr>) = OldestTransactionStartTime tm"
  by (simp_all add: OldestTransactionStartTime_def split: list.splits)

lemma ProcessDeferredActions_closed:
  "ProcessDeferredActions st =
     (let pending = deferred_actions st @ deferred_actions_tm (txn_manager st);
          due = (\<lambda>a. fst a \<le> OldestTransactionStartTime (txn_manager st))
      in st\<lparr>txn_manager := (txn_manager st)\<lparr>deferred_actions_tm := []\<rparr>,
            deferred_actions := dropWhile due pending,
            trace := trace st @ map (\<lambda>a. Invoked (snd a)) (takeWhile due pending)\<rparr>)"
  by (simp add: ProcessDeferredActions_def DeferredActionsForGC_def execute_deferred_eq Let_def)

lemma PerformGarbageCollection_effect:
  assumes "PerformGarbageCollection st = Some (Inr ((txns_deallocated, txns_unlinked), st'))"
  shows "let oldest = OldestTransactionStartTime (txn_manager st);
             safe = NewerThan oldest (last_unlinked st);
             queue = completed_txns (txn_manager st) @ txns_to_unlink st;
             gone = filter (\<lambda>txn. log_processed (txns st txn) \<and> safe) (txns_to_deallocate st)
         in deleted_txns (new_events st st') = gone @ filter (read_only st) queue
            \<and> txns_to_deallocate st' = rev (filter (unlinkable oldest st) queue)
                 @ (if safe then rev (filter (\<lambda>txn. \<not> log_processed (txns st txn)) (txns_to_deallocate st))
                    else txns_to_deallocate st)
            \<and> txns_to_unlink st' = rev (filter (still_visible oldest st) queue)
            \<and> txns_deallocated = of_nat (length gone)
            \<and> txns_unlinked =
                 of_nat (length (filter (\<lambda>txn. read_only st txn \<or> unlinkable oldest st txn) queue))
            \<and> last_unlinked st' =
                 (if txns_unlinked \<noteq> 0 then GetTimestamp (txn_manager st) else last_unlinked st)
            \<and> (\<forall>txn. fixed_part (txns st' txn) = fixed_part (txns st txn))"
proof -
  define oldest where "oldest = OldestTransactionStartTime (txn_manager st)"
  define safe where "safe = NewerThan oldest (last_unlinked st)"
  define queue where "queue = completed_txns (txn_manager st) @ txns_to_unlink st"
  define gone where "gone = filter (\<lambda>txn. log_processed (txns st txn) \<and> safe) (txns_to_deallocate st)"
  define st1 where "st1 = ProcessDeferredActions st"
  define q where "q = dropWhile (\<lambda>a. fst a \<le> OldestTransactionStartTime (txn_manager st))
      (deferred_actions st @ deferred_actions_tm (txn_manager st))"
  define tr where "tr = takeWhile (\<lambda>a. fst a \<le> OldestTransactionStartTime (txn_manager st))
      (deferred_actions st @ deferred_actions_tm (txn_manager st))"
  have st1: "st1 =
     st\<lparr>txn_manager := (txn_manager st)\<lparr>deferred_actions_tm := []\<rparr>, deferred_actions := q,
        trace := trace st @ map (\<lambda>a. Invoked (snd a)) tr\<rparr>"
    unfolding st1_def ProcessDeferredActions_closed Let_def q_def tr_def ..
  define st2 where "st2 = st1\<lparr>trace := trace st1 @ map Deleted gone,
             txns_to_deallocate :=
               (if safe then rev (filter (\<lambda>txn. \<not> log_processed (txns st txn)) (txns_to_deallocate st))
                else txns_to_deallocate st)\<rparr>"
  have d: "ProcessDeallocateQueue st1 = (of_nat (length gone), st2)"
    unfolding ProcessDeallocateQueue_closed
    by (simp add: st1 st2_def Let_def gone_def safe_def oldest_def)
  have unf: "PerformGarbageCollection st =
      (case ProcessUnlinkQueue st2 of
         None \<Rightarrow> None
       | Some (Inl e) \<Rightarrow> Some (Inl e)
       | Some (Inr (txns_unlinked, st3)) \<Rightarrow>
           Some (Inr ((of_nat (length gone), txns_unlinked),
             ProcessIndexes (if txns_unlinked > 0
                         then st3\<lparr>last_unlinked := GetTimestamp (txn_manager st3)\<rparr> else st3))))"
    unfolding PerformGarbageCollection_def st1_def [symmetric] Let_def d prod.case ..
  obtain st3 where
    u: "ProcessUnlinkQueue st2 = Some (Inr (txns_unlinked, st3))"
    and td: "txns_deallocated = of_nat (length gone)"
    and st': "st' = ProcessIndexes (if txns_unlinked > 0
                         then st3\<lparr>last_unlinked := GetTimestamp (txn_manager st3)\<rparr> else st3)"
  proof (cases "ProcessUnlinkQueue st2")
    case None
    with assms unf show ?thesis by simp
  next
    case (Some r)
    show ?thesis
    proof (cases r)
      case (Inl e)
      with Some assms unf show ?thesis by simp
    next
      case (Inr t)
      obtain a b where "t = (a, b)" by (cases t)
      with Inr Some assms unf that show ?thesis by auto
    qed
  qed
  note st2 = st2_def
  have same: "txn_manager st2 = (txn_manager st)\<lparr>deferred_actions_tm := []\<rparr>"
    "txns_to_unlink st2 = txns_to_unlink st" "txns st2 = txns st" "last_unlinked st2 = last_unlinked st"
    "trace st2 = trace st @ map (\<lambda>a. Invoked (snd a)) tr @ map Deleted gone"
    by (simp_all add: st2 st1)
  have preds: "read_only st2 = read_only st" "unlinkable oldest st2 = unlinkable oldest st"
    "still_visible oldest st2 = still_visible oldest st"
    by (simp_all add: read_only_def unlinkable_def still_visible_def fun_eq_iff same)
  have tm3: "GetTimestamp (txn_manager st3) = GetTimestamp (txn_manager st)"
    using ProcessUnlinkQueue_effect [OF u] by (simp add: Let_def same GetTimestamp_def)
  have t3: "trace st3 = trace st2 @ new_events st2 st3"
    using ProcessUnlinkQueue_effect [OF u] by (simp add: Let_def)
  have "trace st' = trace st3 @ map IndexCollected (indexes st3)"
    by (simp add: st' ProcessIndexes_def)
  then have "trace st' = trace st @ (map (\<lambda>a. Invoked (snd a)) tr @ map Deleted gone
      @ new_events st2 st3 @ map IndexCollected (indexes st3))"
    by (simp add: same) (subst t3, simp add: same)
  then have tr': "new_events st st' = map (\<lambda>a. Invoked (snd a)) tr @ map Deleted gone
      @ new_events st2 st3 @ map IndexCollected (indexes st3)"
    by (rule new_events_append)
  have q2: "completed_txns (txn_manager st2) @ txns_to_unlink st2 = queue"
    by (simp add: same queue_def)
  have o2: "OldestTransactionStartTime (txn_manager st2) = oldest"
    by (simp add: same oldest_def)
  have td2: "txns_to_deallocate st2 =
      (if safe then rev (filter (\<lambda>txn. \<not> log_processed (txns st txn)) (txns_to_deallocate st))
       else txns_to_deallocate st)"
    by (simp add: st2)
  note E = ProcessUnlinkQueue_effect [OF u, unfolded Let_def q2 o2 preds td2 same(4)]
  have l': "last_unlinked st' = (if txns_unlinked \<noteq> 0 then GetTimestamp (txn_manager st) else last_unlinked st)"
    using E by (simp add: st' ProcessIndexes_def word_gt_0 same(1) GetTimestamp_def)
  have d': "txns_to_deallocate st' = txns_to_deallocate st3" "txns_to_unlink st' = txns_to_unlink st3"
    "txns st' = txns st3"
    by (simp_all add: st' ProcessIndexes_def)
  show ?thesis
    unfolding Let_def oldest_def [symmetric] safe_def [symmetric] queue_def [symmetric]
      gone_def [symmetric] tr' d' l'
    using E td by (simp add: same(3))
qed

lemma PerformGarbageCollection_returns:
  assumes "quiet f T st"
    and "\<forall>txn \<in> set (completed_txns (txn_manager st) @ txns_to_unlink st).
           aborted (txns st txn) \<or> (\<forall>u \<in> set (undo_buffer (txns st txn)). T u \<noteq> None)"
  shows "\<exists>counts st'. PerformGarbageCollection st = Some (Inr (counts, st')) \<and> quiet f T st'"
proof -
  define st1 where "st1 = ProcessDeferredActions st"
  define st2 where "st2 = snd (ProcessDeallocateQueue st1)"
  have 1: "quiet f T st1" "txns st1 = txns st" "txns_to_unlink st1 = txns_to_unlink st"
    "completed_txns (txn_manager st1) = completed_txns (txn_manager st)"
    using assms(1) by (simp_all add: st1_def ProcessDeferredActions_closed Let_def quiet_def)
  have 2: "quiet f T st2" "txns st2 = txns st" "txns_to_unlink st2 = txns_to_unlink st"
    "completed_txns (txn_manager st2) = completed_txns (txn_manager st)"
    using 1 by (simp_all add: st2_def ProcessDeallocateQueue_closed Let_def quiet_def)
  from assms(2) 2 have "\<forall>txn \<in> set (completed_txns (txn_manager st2) @ txns_to_unlink st2).
           aborted (txns st2 txn) \<or> (\<forall>u \<in> set (undo_buffer (txns st2 txn)). T u \<noteq> None)"
    by simp
  from ProcessUnlinkQueue_returns [OF 2(1) this] obtain n st3 where
    u: "ProcessUnlinkQueue st2 = Some (Inr (n, st3))" and 3: "quiet f T st3" by blast
  let ?st4 = "ProcessIndexes (if n > 0 then st3\<lparr>last_unlinked := GetTimestamp (txn_manager st3)\<rparr> else st3)"
  obtain d where d: "ProcessDeallocateQueue st1 = (d, st2)"
    by (cases "ProcessDeallocateQueue st1") (simp add: st2_def)
  have "PerformGarbageCollection st = Some (Inr ((d, n), ?st4))"
    unfolding PerformGarbageCollection_def st1_def [symmetric] Let_def d prod.case u
    by simp
  moreover have "quiet f T ?st4" using 3 by (simp add: quiet_def ProcessIndexes_def)
  ultimately show ?thesis by blast
qed

lemma truncations_simps [simp]:
  "truncations [] = []" "truncations (es @ es') = truncations es @ truncations es'"
  "truncations (e # es) = (case e of Truncated table slot \<Rightarrow> [(table, slot)] | _ \<Rightarrow> []) @ truncations es"
  by (simp_all add: truncations_def split: gc_event.splits)

lemma truncated_slots_truncations: "truncated_slots es = map snd (truncations es)"
  by (induction es) (simp_all split: gc_event.splits)


lemma chains_of_simps [simp]:
  "chains_of h [] = []" "chains_of h (us @ vs) = chains_of h us @ chains_of h vs"
  "chains_of h (u # us) = (case Table (undo_records h u) of None \<Rightarrow> []
       | Some table \<Rightarrow> [(table, Slot (undo_records h u))]) @ chains_of h us"
  by (simp_all add: chains_of_def)

lemma chains_of_concat: "chains_of h (concat uss) = concat (map (chains_of h) uss)"
  by (induction uss) simp_all








lemma same_slots_upd [simp]:
  "same_slots h (st\<lparr>trace := tr\<rparr>) = same_slots h st"
  "same_slots h (st\<lparr>txns_to_deallocate := td\<rparr>) = same_slots h st"
  "same_slots h (st\<lparr>txns_to_unlink := tu\<rparr>) = same_slots h st"
  "same_slots h (st\<lparr>txn_manager := tm\<rparr>) = same_slots h st"
  by (simp_all add: same_slots_def)























lemmas state_eval = four_completed_def idle_collector_def idle_manager_def no_txn_def no_record_def
  empty_table_def read_only_def unlinkable_def still_visible_def OldestTransactionStartTime_def
  NewerThan_def Committed_def ranked_def


lemma unlink_records_aborted:
  assumes "aborted (txns st txn)"
  shows "unlink_records oldest txn us (st, vis) \<noteq> Some (Inl e)"
  using assms
proof (induction us arbitrary: st vis)
  case Nil
  then show ?case by simp
next
  case (Cons u us)
  show ?case
  proof (cases "truncate_unvisited oldest u (st, vis)")
    case None
    then show ?thesis by simp
  next
    case (Some p)
    obtain st1 vis1 where p: "p = (st1, vis1)" by (cases p)
    from truncate_unvisited_effect [OF Some [unfolded p]] Cons.prems
    have ab: "aborted (txns st1 txn)" by simp
    then have "reclaim_unless_aborted txn u st1 = Inr st1"
      by (simp add: reclaim_unless_aborted_def)
    with Some p Cons.IH [OF ab] show ?thesis by simp
  qed
qed

text \<open>
  C10: an undo record whose table pointer is null is not passed to
  \<^verbatim>\<open>TruncateVersionChain\<close>: the truncation step leaves the collector and the visited
  slots as they are. When its transaction is aborted the whole iteration for the record
  does nothing, and processing the undo buffer of an aborted transaction never ends in
  a null-pointer dereference, since the two reclaim functions are not called.
\<close>

theorem null_table_never_truncated:
  "(Table (undo_records (mem st) undo_record) = None \<longrightarrow>
      truncate_unvisited oldest undo_record (st, visited_slots) = Some (st, visited_slots))
   \<and> (Table (undo_records (mem st) undo_record) = None \<and> aborted (txns st txn) \<longrightarrow>
        unlink_records oldest txn (undo_record # rest) (st, visited_slots)
          = unlink_records oldest txn rest (st, visited_slots))
   \<and> (aborted (txns st txn) \<longrightarrow>
        unlink_records oldest txn records (st, visited_slots) \<noteq> Some (Inl e))"
  using unlink_records_aborted [of st txn oldest records visited_slots e]
  by (simp add: truncate_unvisited_def reclaim_unless_aborted_def)

theorem null_table_never_truncated_witness:
  "Table (undo_records (mem four_completed) 3) = None \<and> aborted (txns four_completed 3)
   \<and> truncate_unvisited 5 3 (four_completed, {}) = Some (four_completed, {})
   \<and> unlink_records 5 3 [3] (four_completed, {}) = Some (Inr (four_completed, {}))"
proof -
  have "Table (undo_records (mem four_completed) 3) = None" "aborted (txns four_completed 3)"
    by (simp_all add: four_completed_def idle_collector_def)
  with null_table_never_truncated [of four_completed 3 5 "{}" 3 "[]" "[]" NullPointerDereference]
  show ?thesis by (simp del: unlink_records.simps(2))
qed

lemma word32_of_nat_eq_0:
  "n < 2 ^ 32 \<Longrightarrow> (of_nat n :: 32 word) = 0 \<longleftrightarrow> n = 0"
  by (simp add: word_of_nat_eq_0_iff dvd_eq_mod_eq_0 flip: take_bit_eq_mod) 

text \<open>
  C4: after a tick, \<open>last_unlinked\<close> is the current timestamp if the count of the unlink
  phase is not zero, and is unchanged otherwise. The count is the number of transactions
  the unlink phase deleted or unlinked, as a \<^verbatim>\<open>uint32_t\<close>; with fewer than \<open>2 ^ 32\<close>
  transactions queued it is not zero if and only if there is at least one.
\<close>

theorem last_unlinked_set_iff_unlinked:
  assumes "PerformGarbageCollection st = Some (Inr ((txns_deallocated, txns_unlinked), st'))"
  shows "let oldest = OldestTransactionStartTime (txn_manager st);
             queue = completed_txns (txn_manager st) @ txns_to_unlink st;
             processed = filter (\<lambda>txn. read_only st txn \<or> unlinkable oldest st txn) queue
         in txns_unlinked = of_nat (length processed)
            \<and> last_unlinked st' =
                 (if txns_unlinked \<noteq> 0 then GetTimestamp (txn_manager st) else last_unlinked st)
            \<and> (length queue < 2 ^ 32 \<longrightarrow>
                 last_unlinked st' =
                   (if processed \<noteq> [] then GetTimestamp (txn_manager st) else last_unlinked st))"
proof -
  define oldest where "oldest = OldestTransactionStartTime (txn_manager st)"
  define queue where "queue = completed_txns (txn_manager st) @ txns_to_unlink st"
  define processed where "processed = filter (\<lambda>txn. read_only st txn \<or> unlinkable oldest st txn) queue"
  from PerformGarbageCollection_effect [OF assms]
  have n: "txns_unlinked = of_nat (length processed)"
    and l: "last_unlinked st' =
                 (if txns_unlinked \<noteq> 0 then GetTimestamp (txn_manager st) else last_unlinked st)"
    by (simp_all add: Let_def oldest_def queue_def processed_def)
  have "txns_unlinked \<noteq> 0 \<longleftrightarrow> processed \<noteq> []" if "length queue < 2 ^ 32"
  proof -
    have "length processed \<le> length queue" by (simp add: processed_def)
    with that have "length processed < 2 ^ 32" by simp
    then show ?thesis using n by (simp add: word32_of_nat_eq_0)
  qed
  with n l show ?thesis
    unfolding Let_def oldest_def [symmetric] queue_def [symmetric] processed_def [symmetric]
    by simp
qed

lemma four_completed_quiet:
  "quiet id (\<lambda>u. Table (undo_records (mem four_completed) u)) four_completed"
  "\<forall>txn \<in> set (completed_txns (txn_manager four_completed) @ txns_to_unlink four_completed).
     aborted (txns four_completed txn)
     \<or> (\<forall>u \<in> set (undo_buffer (txns four_completed txn)).
           Table (undo_records (mem four_completed) u) \<noteq> None)"
  by (simp_all add: quiet_def state_eval)

theorem last_unlinked_set_iff_unlinked_witness:
  "\<exists>counts st'. PerformGarbageCollection four_completed = Some (Inr (counts, st'))
     \<and> snd counts = 3 \<and> last_unlinked four_completed = 0 \<and> last_unlinked st' = 20"
proof -
  from PerformGarbageCollection_returns [OF four_completed_quiet]
  obtain d u st' where run: "PerformGarbageCollection four_completed = Some (Inr ((d, u), st'))"
    by auto
  from last_unlinked_set_iff_unlinked [OF run]
  have "u = 3 \<and> last_unlinked st' = 20"
    by (simp add: Let_def state_eval GetTimestamp_def)
  with run show ?thesis by (simp add: four_completed_def idle_collector_def)
qed

text \<open>
  C5: in a tick, a transaction with undo records is deleted if and only if it was in the
  deallocation queue when the tick began, its \<open>log_processed\<close> flag is true and the
  oldest running begin timestamp is newer than \<open>last_unlinked\<close>. So a transaction handed
  over in this tick (and not yet in the deallocation queue) is not deleted in it; if it
  can be unlinked it is in the deallocation queue afterwards, \<open>last_unlinked\<close> is the
  timestamp of this tick, and a later tick deletes it once the log manager has processed
  it and the oldest running transaction began after that timestamp.
\<close>

theorem two_ticks_to_reclaim:
  assumes "PerformGarbageCollection st = Some (Inr (counts, st'))" and "\<not> read_only st txn"
  shows "let oldest = OldestTransactionStartTime (txn_manager st);
             queue = completed_txns (txn_manager st) @ txns_to_unlink st
         in (txn \<in> set (deleted_txns (new_events st st')) \<longleftrightarrow>
               txn \<in> set (txns_to_deallocate st) \<and> log_processed (txns st txn)
               \<and> NewerThan oldest (last_unlinked st))
            \<and> (txn \<in> set queue \<and> txn \<notin> set (txns_to_deallocate st) \<longrightarrow>
                 txn \<notin> set (deleted_txns (new_events st st')))
            \<and> (txn \<in> set queue \<and> NewerThan oldest (TxnId (txns st txn)) \<longrightarrow>
                 txn \<in> set (txns_to_deallocate st'))
            \<and> (snd counts \<noteq> 0 \<longrightarrow> last_unlinked st' = GetTimestamp (txn_manager st))"
proof -
  obtain d u where c: "counts = (d, u)" by (cases counts)
  from PerformGarbageCollection_effect [OF assms(1) [unfolded c]] assms(2) show ?thesis
    by (auto simp: Let_def c unlinkable_def read_only_def)
qed

theorem two_ticks_to_reclaim_witness:
  "\<exists>c1 st1 c2 st2.
     PerformGarbageCollection four_completed = Some (Inr (c1, st1))
     \<and> 2 \<notin> set (deleted_txns (new_events four_completed st1))
     \<and> 2 \<in> set (txns_to_deallocate st1)
     \<and> PerformGarbageCollection (after_log_flush st1) = Some (Inr (c2, st2))
     \<and> 2 \<in> set (deleted_txns (new_events (after_log_flush st1) st2))"
proof -
  let ?T = "\<lambda>u. Table (undo_records (mem four_completed) u)"
  from PerformGarbageCollection_returns [OF four_completed_quiet]
  obtain d u st1 where run1: "PerformGarbageCollection four_completed = Some (Inr ((d, u), st1))"
    and q1: "quiet id ?T st1"
    by auto
  have w: "\<not> read_only four_completed 2" by (simp add: state_eval)
  from two_ticks_to_reclaim [OF run1 w]
  have first: "2 \<notin> set (deleted_txns (new_events four_completed st1))"
    "2 \<in> set (txns_to_deallocate st1)"
    by (simp_all add: Let_def state_eval)
  from PerformGarbageCollection_effect [OF run1]
  have st1: "txns_to_unlink st1 = [4]" "\<And>txn. fixed_part (txns st1 txn) = fixed_part (txns four_completed txn)"
    "last_unlinked st1 = 20"
    by (simp_all add: Let_def state_eval GetTimestamp_def)
  have ub: "undo_buffer (txns st1 txn) = undo_buffer (txns four_completed txn)" for txn
    using st1(2) [of txn] by (simp add: fixed_part_def)
  have q2: "quiet id ?T (after_log_flush st1)"
    using q1 by (simp add: quiet_def after_log_flush_def)
  have "\<forall>txn \<in> set (completed_txns (txn_manager (after_log_flush st1)) @ txns_to_unlink (after_log_flush st1)).
     aborted (txns (after_log_flush st1) txn)
     \<or> (\<forall>u \<in> set (undo_buffer (txns (after_log_flush st1) txn)). ?T u \<noteq> None)"
    by (simp add: after_log_flush_def idle_manager_def st1(1) ub) (simp add: state_eval)
  from PerformGarbageCollection_returns [OF q2 this]
  obtain c2 st2 where run2: "PerformGarbageCollection (after_log_flush st1) = Some (Inr (c2, st2))"
    by auto
  have w2: "\<not> read_only (after_log_flush st1) 2"
    by (simp add: read_only_def after_log_flush_def ub) (simp add: state_eval)
  from two_ticks_to_reclaim [OF run2 w2] first st1(3)
  have "2 \<in> set (deleted_txns (new_events (after_log_flush st1) st2))"
    by (simp add: Let_def after_log_flush_def idle_manager_def OldestTransactionStartTime_def
        NewerThan_def Committed_def)
  with run1 first run2 show ?thesis by blast
qed

section \<open>Properties of the write-ahead log\<close>

lemma selects_stage_nothing:
  "\<forall>op \<in> set ops. op = RandomSelect \<Longrightarrow> fold apply_operation ops txn = txn"
  by (induction ops) auto

lemma read_only_logs_nothing: "read_only_txn s \<Longrightarrow> SimulateOneTransaction s lm = lm"
  by (simp add: SimulateOneTransaction_def read_only_txn_def selects_stage_nothing Finish_def
      Abort_def Commit_def BeginTransaction_def)

lemma read_only_workload: "\<forall>s \<in> set workload. read_only_txn s \<Longrightarrow> SimulateOltp workload lm = lm"
  unfolding SimulateOltp_def by (induction workload arbitrary: lm) (simp_all add: read_only_logs_nothing)

lemma ran_records:
  assumes "\<forall>r \<in> set (redo_buffer txn). RecordType r = REDO \<and> TxnBegin r = start_time txn"
  shows "start_time (fold apply_operation ops txn) = start_time txn
     \<and> (\<forall>r \<in> set (redo_buffer (fold apply_operation ops txn)).
           RecordType r = REDO \<and> TxnBegin r = start_time txn)"
  using assms
proof (induction ops arbitrary: txn)
  case Nil
  then show ?case by simp
next
  case (Cons op ops)
  have "start_time (apply_operation op txn) = start_time txn
     \<and> (\<forall>r \<in> set (redo_buffer (apply_operation op txn)).
           RecordType r = REDO \<and> TxnBegin r = start_time (apply_operation op txn))"
    using Cons.prems by (cases op) (auto simp: StageWrite_def)
  with Cons.IH [of "apply_operation op txn"] show ?case by simp
qed

lemma one_txn_queue:
  "SimulateOneTransaction s lm =
     (if committed_writer s
      then lm\<lparr>flush_queue := flush_queue lm @
             [redo_buffer (ran s) @ [\<lparr>RecordType = COMMIT, TxnBegin = begin_ts s, CommitTime = commit_ts s\<rparr>]]\<rparr>
      else lm)"
proof -
  have "start_time (ran s) = begin_ts s"
    using ran_records [of "BeginTransaction (begin_ts s)" "operations s"]
    by (simp add: ran_def BeginTransaction_def)
  then show ?thesis
    by (simp add: SimulateOneTransaction_def ran_def [symmetric] Finish_def Abort_def Commit_def
        AddBufferToFlushQueue_def committed_writer_def)
qed

lemma commits_of_workload:
  "log_file (SimulateOltp workload lm) = log_file lm
   \<and> (\<exists>new. flush_queue (SimulateOltp workload lm) = flush_queue lm @ new
        \<and> (\<forall>r \<in> set (concat new). RecordType r = COMMIT \<longrightarrow>
              (\<exists>s \<in> set workload. committed_writer s \<and> TxnBegin r = begin_ts s)))"
  unfolding SimulateOltp_def
proof (induction workload arbitrary: lm)
  case Nil
  show ?case by simp
next
  case (Cons s workload)
  let ?lm1 = "SimulateOneTransaction s lm"
  from Cons.IH [of ?lm1] obtain new where
    f: "log_file (fold SimulateOneTransaction workload ?lm1) = log_file ?lm1"
    and q: "flush_queue (fold SimulateOneTransaction workload ?lm1) = flush_queue ?lm1 @ new"
    and c: "\<forall>r \<in> set (concat new). RecordType r = COMMIT \<longrightarrow>
              (\<exists>s \<in> set workload. committed_writer s \<and> TxnBegin r = begin_ts s)"
    by blast
  have rec: "\<forall>r \<in> set (redo_buffer (ran s)). RecordType r = REDO"
    using ran_records [of "BeginTransaction (begin_ts s)" "operations s"]
    by (simp add: ran_def BeginTransaction_def)
  show ?case
  proof (cases "committed_writer s")
    case False
    then have "?lm1 = lm" by (simp add: one_txn_queue)
    with f q c show ?thesis by auto
  next
    case True
    let ?b = "redo_buffer (ran s) @ [\<lparr>RecordType = COMMIT, TxnBegin = begin_ts s, CommitTime = commit_ts s\<rparr>]"
    from True have lm1: "?lm1 = lm\<lparr>flush_queue := flush_queue lm @ [?b]\<rparr>"
      by (simp add: one_txn_queue)
    from q have "flush_queue (fold SimulateOneTransaction (s # workload) lm) = flush_queue lm @ (?b # new)"
      by (simp add: lm1)
    moreover have "\<forall>r \<in> set (concat (?b # new)). RecordType r = COMMIT \<longrightarrow>
              (\<exists>s' \<in> set (s # workload). committed_writer s' \<and> TxnBegin r = begin_ts s')"
      using c rec True by auto
    moreover have "log_file (fold SimulateOneTransaction (s # workload) lm) = log_file lm"
      using f by (simp add: lm1)
    ultimately show ?thesis by blast
  qed
qed

text \<open>
  C7: a workload of read-only transactions hands nothing to the log, so after
  \<^verbatim>\<open>persist_and_stop\<close> the log file is what it would have been without the workload: empty
  (zero records) when the log manager started empty, and the count of the test is 0
  also when the file holds the records of the initial transaction. In any workload with
  distinct begin timestamps, no commit record exists for a transaction that is
  read-only or aborted.
\<close>

theorem read_only_transactions_generate_no_log:
  "((\<forall>s \<in> set workload. read_only_txn s) \<longrightarrow>
      PersistAndStop (SimulateOltp workload lm) = PersistAndStop lm
      \<and> log_file (PersistAndStop (SimulateOltp workload Start)) = []
      \<and> log_records_count (log_file (PersistAndStop (SimulateOltp workload Start))) = 0
      \<and> log_records_count (log_file (PersistAndStop (SimulateOltp workload lm)))
            = log_records_count (log_file (PersistAndStop lm)))
   \<and> (distinct (map begin_ts workload) \<and> s \<in> set workload
       \<and> (read_only_txn s \<or> txn_aborted (ran s)) \<longrightarrow>
       (\<forall>r \<in> set (log_file (PersistAndStop (SimulateOltp workload Start))).
          \<not> (RecordType r = COMMIT \<and> TxnBegin r = begin_ts s)))"
proof (intro conjI impI)
  assume ro: "\<forall>s \<in> set workload. read_only_txn s"
  then show "PersistAndStop (SimulateOltp workload lm) = PersistAndStop lm"
    by (simp add: read_only_workload)
  from ro show "log_file (PersistAndStop (SimulateOltp workload Start)) = []"
    by (simp add: read_only_workload PersistAndStop_def Start_def)
  from ro show "log_records_count (log_file (PersistAndStop (SimulateOltp workload Start))) = 0"
    by (simp add: read_only_workload PersistAndStop_def Start_def log_records_count_def)
  from ro show "log_records_count (log_file (PersistAndStop (SimulateOltp workload lm)))
            = log_records_count (log_file (PersistAndStop lm))"
    by (simp add: read_only_workload)
next
  assume a: "distinct (map begin_ts workload) \<and> s \<in> set workload
       \<and> (read_only_txn s \<or> txn_aborted (ran s))"
  have nw: "\<not> committed_writer s"
    using a by (auto simp: committed_writer_def ran_def read_only_txn_def selects_stage_nothing
        BeginTransaction_def)
  from commits_of_workload [of workload Start] obtain new where
    f: "log_file (SimulateOltp workload Start) = []"
    and q: "flush_queue (SimulateOltp workload Start) = new"
    and c: "\<forall>r \<in> set (concat new). RecordType r = COMMIT \<longrightarrow>
              (\<exists>s \<in> set workload. committed_writer s \<and> TxnBegin r = begin_ts s)"
    by (auto simp: Start_def)
  show "\<forall>r \<in> set (log_file (PersistAndStop (SimulateOltp workload Start))).
          \<not> (RecordType r = COMMIT \<and> TxnBegin r = begin_ts s)"
  proof (intro ballI notI)
    fix r
    assume r: "r \<in> set (log_file (PersistAndStop (SimulateOltp workload Start)))"
      and rc: "RecordType r = COMMIT \<and> TxnBegin r = begin_ts s"
    from r f q have "r \<in> set (concat new)" by (simp add: PersistAndStop_def)
    with c rc have "\<exists>s' \<in> set workload. committed_writer s' \<and> TxnBegin r = begin_ts s'" by blast
    with rc obtain s' where s': "s' \<in> set workload" "committed_writer s'" "begin_ts s' = begin_ts s"
      by auto
    from a s' have "s' = s" by (auto simp: distinct_map inj_on_def)
    with s'(2) nw show False by simp
  qed
qed

theorem read_only_transactions_generate_no_log_witness:
  "log_file (PersistAndStop (SimulateOltp selects_only Start)) = []
   \<and> log_records_count (log_file (PersistAndStop (SimulateOltp selects_only Start))) = 0
   \<and> \<not> (\<exists>r \<in> set (log_file (PersistAndStop (SimulateOltp mixed_workload Start))).
           RecordType r = COMMIT \<and> TxnBegin r = 4)
   \<and> map RecordType (log_file (PersistAndStop (SimulateOltp mixed_workload Start))) = [REDO, COMMIT]"
proof -
  have ro: "\<forall>s \<in> set selects_only. read_only_txn s"
    by (simp add: selects_only_def read_only_txn_def)
  have ab: "distinct (map begin_ts mixed_workload) \<and> mixed_workload ! 2 \<in> set mixed_workload
      \<and> (read_only_txn (mixed_workload ! 2) \<or> txn_aborted (ran (mixed_workload ! 2)))"
    by (simp add: mixed_workload_def ran_def BeginTransaction_def StageWrite_def)
  have b: "begin_ts (mixed_workload ! 2) = 4"
    by (simp add: mixed_workload_def)
  have run: "map RecordType (log_file (PersistAndStop (SimulateOltp mixed_workload Start))) = [REDO, COMMIT]"
    by (simp add: mixed_workload_def SimulateOltp_def SimulateOneTransaction_def BeginTransaction_def
        StageWrite_def Finish_def Commit_def Abort_def AddBufferToFlushQueue_def PersistAndStop_def
        Start_def)
  from read_only_transactions_generate_no_log [of selects_only Start "mixed_workload ! 2"] ro
  have "log_file (PersistAndStop (SimulateOltp selects_only Start)) = []
   \<and> log_records_count (log_file (PersistAndStop (SimulateOltp selects_only Start))) = 0"
    by blast
  moreover from read_only_transactions_generate_no_log [of mixed_workload Start "mixed_workload ! 2"] ab b
  have "\<not> (\<exists>r \<in> set (log_file (PersistAndStop (SimulateOltp mixed_workload Start))).
           RecordType r = COMMIT \<and> TxnBegin r = 4)"
    by auto
  ultimately show ?thesis using run by blast
qed

end
